theory Spec2Isabelle
  imports Complex_Main "HOL-Library.AList" "HOL-Library.Word"
begin

unbundle bit_operations_syntax

section \<open>The intent provider of xiaozhi-esp32-server (intent\_ali.py)\<close>

text \<open>
  The development embeds \<^verbatim>\<open>core/providers/intent/intent_ali/intent_ali.py\<close>:
  the class \<^verbatim>\<open>IntentProvider\<close> with its methods \<^verbatim>\<open>clean_cache\<close>,
  \<^verbatim>\<open>parse_text\<close> and \<^verbatim>\<open>detect_intent\<close>, together with the parts of the
  Python standard library those methods call (\<^verbatim>\<open>str.strip\<close>, \<^verbatim>\<open>re.search\<close> for
  the three tag patterns, \<^verbatim>\<open>json.loads\<close>, \<^verbatim>\<open>json.dumps\<close>,
  \<^verbatim>\<open>hashlib.md5\<close>).

  Conventions.
  \<^item> A Python \<^verbatim>\<open>str\<close> is the list of its Unicode code points (\<open>nat list\<close>);
    \<open>ascii\<close> turns an ASCII literal into such a list.
  \<^item> A raised exception is the left injection of a sum; the constructors of \<open>exn\<close> are
    the exception classes the code can raise.
  \<^item> \<^verbatim>\<open>time.time()\<close> is a sequence of readings: the \<open>k\<close>-th call returns
    \<open>time_time rt k\<close>, and the state counts the calls made. Readings are reals; the
    rounding of float subtraction is not modelled.
  \<^item> A Python \<^verbatim>\<open>float\<close> that \<^verbatim>\<open>json.loads\<close> produces is represented by the
    text it was read from, and \<^verbatim>\<open>json.dumps\<close> prints it through the parameter
    \<open>float_repr rt\<close>, which stands for what \<^verbatim>\<open>json.dumps\<close> writes for the float
    that text denotes: \<^verbatim>\<open>float.__repr__\<close> of it, or \<^verbatim>\<open>NaN\<close>,
    \<^verbatim>\<open>Infinity\<close>, \<^verbatim>\<open>-Infinity\<close>. The arithmetic of floats is not modelled.
  \<^item> A Python \<^verbatim>\<open>dict\<close> is an association list in insertion order with distinct keys;
    assignment is \<open>AList.update\<close> (in place, or appended when the key is new) and
    \<^verbatim>\<open>del\<close> is \<open>AList.delete\<close>.
  \<^item> Calls to the logger have no effect on results or on the provider and are left out.
  \<^item> The interpreter's recursion limit and the limit on the digits of an integer literal
    are not modelled.
\<close>

subsection \<open>Strings and exceptions\<close>

type_synonym str = "nat list"

definition ascii :: "string \<Rightarrow> str" where
  "ascii cs = map of_char cs"

datatype exn =
    ValueError string
  | JSONDecodeError
  | KeyError
  | IndexError
  | TypeError
  | AttributeError
  | UnicodeEncodeError
  | ExternalError

text \<open>\<^verbatim>\<open>str.isspace\<close> for one code point, and \<^verbatim>\<open>str.strip()\<close>.\<close>

definition isspace :: "nat \<Rightarrow> bool" where
  "isspace c \<longleftrightarrow>
     (9 \<le> c \<and> c \<le> 13) \<or> (28 \<le> c \<and> c \<le> 32) \<or> c = 133 \<or> c = 160 \<or> c = 5760
     \<or> (8192 \<le> c \<and> c \<le> 8202) \<or> c = 8232 \<or> c = 8233 \<or> c = 8239 \<or> c = 8287
     \<or> c = 12288"

definition strip :: "str \<Rightarrow> str" where
  "strip s = rev (dropWhile isspace (rev (dropWhile isspace s)))"

fun startswith :: "str \<Rightarrow> str \<Rightarrow> bool" where
  "startswith [] s = True"
| "startswith (p # ps) [] = False"
| "startswith (p # ps) (c # cs) = (p = c \<and> startswith ps cs)"

text \<open>
  \<^verbatim>\<open>re.search(r'<tag>(.*?)</tag>', text, re.DOTALL)\<close>: the match starts at the first
  occurrence of the opening tag that is followed somewhere by the closing tag, which is
  the first occurrence of the opening tag if there is a match at all; the lazy group then
  ends at the first closing tag after it. With \<^verbatim>\<open>re.DOTALL\<close> the dot matches every
  code point. \<open>re_search_group\<close> returns \<open>group(1)\<close>, or \<open>None\<close> when there is no match.
\<close>

fun find_after :: "str \<Rightarrow> str \<Rightarrow> str option" where
  "find_after pat [] = (if pat = [] then Some [] else None)"
| "find_after pat (c # cs) =
     (if startswith pat (c # cs) then Some (drop (length pat) (c # cs)) else find_after pat cs)"

fun find_before :: "str \<Rightarrow> str \<Rightarrow> str option" where
  "find_before pat [] = (if pat = [] then Some [] else None)"
| "find_before pat (c # cs) =
     (if startswith pat (c # cs) then Some []
      else map_option ((#) c) (find_before pat cs))"

definition re_search_group :: "str \<Rightarrow> str \<Rightarrow> str \<Rightarrow> str option" where
  "re_search_group opening closing text =
     (case find_after opening text of
        None \<Rightarrow> None
      | Some rest \<Rightarrow> find_before closing rest)"

subsection \<open>JSON values\<close>

text \<open>
  The values \<^verbatim>\<open>json.loads\<close> returns: \<^verbatim>\<open>None\<close>, \<^verbatim>\<open>bool\<close>, \<^verbatim>\<open>int\<close>,
  \<^verbatim>\<open>float\<close> (kept as the text it was read from), \<^verbatim>\<open>str\<close>, \<^verbatim>\<open>list\<close> and
  \<^verbatim>\<open>dict\<close>.
\<close>

datatype json =
    JNull
  | JBool bool
  | JInt int
  | JFloat str
  | JStr str
  | JArr "json list"
  | JObj "(str \<times> json) list"

text \<open>\<^verbatim>\<open>dict(pairs)\<close>: a later pair overwrites the value of an earlier equal key.\<close>

definition dict :: "(str \<times> json) list \<Rightarrow> (str \<times> json) list" where
  "dict pairs = foldl (\<lambda>d (k, v). AList.update k v d) [] pairs"

subsection \<open>json.loads\<close>

text \<open>
  The decoder follows \<^verbatim>\<open>json/decoder.py\<close> and \<^verbatim>\<open>json/scanner.py\<close> (with the C
  accelerator's reading of digits: ASCII only). A scanning function takes the text from
  the current index on and returns the value with the text that is left; the index of an
  error is not kept. \<^verbatim>\<open>StopIteration\<close> out of \<^verbatim>\<open>scan_once\<close> is turned into
  \<^verbatim>\<open>JSONDecodeError\<close> by each of its callers, so \<open>scan_once\<close> returns that directly.
\<close>

definition json_ws :: "nat \<Rightarrow> bool" where
  "json_ws c \<longleftrightarrow> c = 32 \<or> c = 9 \<or> c = 10 \<or> c = 13"

definition skip_ws :: "str \<Rightarrow> str" where
  "skip_ws s = dropWhile json_ws s"

definition hexval :: "nat \<Rightarrow> nat option" where
  "hexval c =
     (if 48 \<le> c \<and> c \<le> 57 then Some (c - 48)
      else if 97 \<le> c \<and> c \<le> 102 then Some (c - 87)
      else if 65 \<le> c \<and> c \<le> 70 then Some (c - 55)
      else None)"

fun decode_hex :: "nat \<Rightarrow> str \<Rightarrow> nat option" where
  "decode_hex acc [] = Some acc"
| "decode_hex acc (c # cs) =
     (case hexval c of None \<Rightarrow> None | Some d \<Rightarrow> decode_hex (16 * acc + d) cs)"

text \<open>The four hexadecimal digits after \<^verbatim>\<open>\u\<close>; \<open>None\<close> is "Invalid \textbackslash uXXXX escape".\<close>

definition decode_uXXXX :: "str \<Rightarrow> nat option" where
  "decode_uXXXX s = (if length (take 4 s) = 4 then decode_hex 0 (take 4 s) else None)"

definition BACKSLASH :: "nat \<Rightarrow> nat option" where
  "BACKSLASH esc =
     (if esc = 34 then Some 34
      else if esc = 92 then Some 92
      else if esc = 47 then Some 47
      else if esc = 98 then Some 8
      else if esc = 102 then Some 12
      else if esc = 110 then Some 10
      else if esc = 114 then Some 13
      else if esc = 116 then Some 9
      else None)"

definition append_char :: "nat \<Rightarrow> exn + (str \<times> str) \<Rightarrow> exn + (str \<times> str)" where
  "append_char c res = (case res of Inl e \<Rightarrow> Inl e | Inr (t, rest) \<Rightarrow> Inr (c # t, rest))"

text \<open>
  \<open>scanstring\<close> starts after the opening quote (34). A backslash (92) starts an escape;
  a high surrogate escape directly followed by a low surrogate escape is joined into one
  code point; a raw control character is refused (\<^verbatim>\<open>strict=True\<close>).
\<close>

function scanstring :: "str \<Rightarrow> exn + (str \<times> str)" where
  "scanstring [] = Inl JSONDecodeError"
| "scanstring (c # cs) =
     (if c = 34 then Inr ([], cs)
      else if c = 92 then
        (case cs of
           [] \<Rightarrow> Inl JSONDecodeError
         | esc # r \<Rightarrow>
             if esc \<noteq> 117 then
               (case BACKSLASH esc of
                  None \<Rightarrow> Inl JSONDecodeError
                | Some ch \<Rightarrow> append_char ch (scanstring r))
             else
               (case decode_uXXXX r of
                  None \<Rightarrow> Inl JSONDecodeError
                | Some uni \<Rightarrow>
                    if 55296 \<le> uni \<and> uni \<le> 56319 \<and> take 2 (drop 4 r) = [92, 117] then
                      (case decode_uXXXX (drop 6 r) of
                         None \<Rightarrow> Inl JSONDecodeError
                       | Some uni2 \<Rightarrow>
                           if 56320 \<le> uni2 \<and> uni2 \<le> 57343
                           then append_char (65536 + ((uni - 55296) * 1024 + (uni2 - 56320)))
                                  (scanstring (drop 10 r))
                           else append_char uni (scanstring (drop 4 r)))
                    else append_char uni (scanstring (drop 4 r))))
      else if c < 32 then Inl JSONDecodeError
      else append_char c (scanstring cs))"
  by pat_completeness auto
termination
  by (relation "measure length") auto

text \<open>
  \<^verbatim>\<open>NUMBER_RE\<close>: \<^verbatim>\<open>(-?(?:0|[1-9][0-9]*))(\.[0-9]+)?([eE][-+]?[0-9]+)?\<close>, matched at
  the start of the text. The result is the three groups and the text after the match.
\<close>

definition is_digit :: "nat \<Rightarrow> bool" where
  "is_digit c \<longleftrightarrow> 48 \<le> c \<and> c \<le> 57"

definition match_sign :: "str \<Rightarrow> str \<times> str" where
  "match_sign s =
     (case s of [] \<Rightarrow> ([], s) | c # cs \<Rightarrow> if c = 45 then ([45], cs) else ([], s))"

definition match_integer :: "str \<Rightarrow> (str \<times> str) option" where
  "match_integer s =
     (case s of
        [] \<Rightarrow> None
      | d # ds \<Rightarrow>
          if d = 48 then Some ([48], ds)
          else if is_digit d then Some (d # takeWhile is_digit ds, dropWhile is_digit ds)
          else None)"

definition match_frac :: "str \<Rightarrow> str \<times> str" where
  "match_frac s =
     (case s of
        p # q # r \<Rightarrow>
          if p = 46 \<and> is_digit q
          then (p # takeWhile is_digit (q # r), dropWhile is_digit (q # r))
          else ([], s)
      | _ \<Rightarrow> ([], s))"

definition match_exp :: "str \<Rightarrow> str \<times> str" where
  "match_exp s =
     (case s of
        [] \<Rightarrow> ([], s)
      | e # r \<Rightarrow>
          if e = 101 \<or> e = 69 then
            (let (sg, r1) = (case r of
                               [] \<Rightarrow> ([], r)
                             | c # cs \<Rightarrow> if c = 43 \<or> c = 45 then ([c], cs) else ([], r))
             in case r1 of
                  [] \<Rightarrow> ([], s)
                | d # ds \<Rightarrow>
                    if is_digit d
                    then (e # sg @ takeWhile is_digit r1, dropWhile is_digit r1)
                    else ([], s))
          else ([], s))"

definition match_number :: "str \<Rightarrow> (str \<times> str \<times> str \<times> str) option" where
  "match_number s =
     (let (sign, s1) = match_sign s
      in case match_integer s1 of
           None \<Rightarrow> None
         | Some (ip, s2) \<Rightarrow>
             (let (frc, s3) = match_frac s2; (ex, s4) = match_exp s3
              in Some (sign @ ip, frc, ex, s4)))"

text \<open>\<^verbatim>\<open>int(integer)\<close> on the first group of a number match.\<close>

definition parse_int :: "str \<Rightarrow> int" where
  "parse_int l =
     (case l of
        [] \<Rightarrow> 0
      | c # cs \<Rightarrow>
          if c = 45 then - int (foldl (\<lambda>a d. 10 * a + (d - 48)) 0 cs)
          else int (foldl (\<lambda>a d. 10 * a + (d - 48)) 0 l))"

text \<open>
  \<open>scan_once\<close> dispatches on the first character; \<open>JSONArray\<close> and \<open>JSONObject\<close> are the
  loops of the functions of these names, entered after the look-ahead for the empty
  array and the empty object, with the values and pairs read so far.
\<close>

function scan_once :: "str \<Rightarrow> exn + (json \<times> str)"
  and JSONArray :: "json list \<Rightarrow> str \<Rightarrow> exn + (json \<times> str)"
  and JSONObject :: "(str \<times> json) list \<Rightarrow> str \<Rightarrow> exn + (json \<times> str)"
where
  "scan_once s =
     (case s of
        [] \<Rightarrow> Inl JSONDecodeError
      | c # cs \<Rightarrow>
          if c = 34 then
            (case scanstring cs of Inl e \<Rightarrow> Inl e | Inr (t, r) \<Rightarrow> Inr (JStr t, r))
          else if c = 123 then
            (case skip_ws cs of
               [] \<Rightarrow> Inl JSONDecodeError
             | d # ds \<Rightarrow> if d = 125 then Inr (JObj [], ds) else JSONObject [] (skip_ws cs))
          else if c = 91 then
            (case skip_ws cs of
               [] \<Rightarrow> Inl JSONDecodeError
             | d # ds \<Rightarrow> if d = 93 then Inr (JArr [], ds) else JSONArray [] (skip_ws cs))
          else if startswith [110, 117, 108, 108] s then Inr (JNull, drop 4 s)
          else if startswith [116, 114, 117, 101] s then Inr (JBool True, drop 4 s)
          else if startswith [102, 97, 108, 115, 101] s then Inr (JBool False, drop 5 s)
          else
            (case match_number s of
               Some (integer, frc, ex, rest) \<Rightarrow>
                 if frc \<noteq> [] \<or> ex \<noteq> [] then Inr (JFloat (integer @ frc @ ex), rest)
                 else Inr (JInt (parse_int integer), rest)
             | None \<Rightarrow>
                 if startswith [78, 97, 78] s then Inr (JFloat [78, 97, 78], drop 3 s)
                 else if startswith [73, 110, 102, 105, 110, 105, 116, 121] s
                 then Inr (JFloat [73, 110, 102, 105, 110, 105, 116, 121], drop 8 s)
                 else if startswith [45, 73, 110, 102, 105, 110, 105, 116, 121] s
                 then Inr (JFloat [45, 73, 110, 102, 105, 110, 105, 116, 121], drop 9 s)
                 else Inl JSONDecodeError))"
| "JSONArray values s =
     (case scan_once s of
        Inl e \<Rightarrow> Inl e
      | Inr (v, r) \<Rightarrow>
          (case skip_ws r of
             [] \<Rightarrow> Inl JSONDecodeError
           | c # r' \<Rightarrow>
               if c = 93 then Inr (JArr (values @ [v]), r')
               else if c = 44 then JSONArray (values @ [v]) (skip_ws r')
               else Inl JSONDecodeError))"
| "JSONObject pairs s =
     (case s of
        [] \<Rightarrow> Inl JSONDecodeError
      | q # s1 \<Rightarrow>
          if q \<noteq> 34 then Inl JSONDecodeError
          else
            (case scanstring s1 of
               Inl e \<Rightarrow> Inl e
             | Inr (key, r1) \<Rightarrow>
                 (case skip_ws r1 of
                    [] \<Rightarrow> Inl JSONDecodeError
                  | c # r2 \<Rightarrow>
                      if c \<noteq> 58 then Inl JSONDecodeError
                      else
                        (case scan_once (skip_ws r2) of
                           Inl e \<Rightarrow> Inl e
                         | Inr (v, r3) \<Rightarrow>
                             (case skip_ws r3 of
                                [] \<Rightarrow> Inl JSONDecodeError
                              | c' # r4 \<Rightarrow>
                                  if c' = 125 then Inr (JObj (dict (pairs @ [(key, v)])), r4)
                                  else if c' = 44
                                  then JSONObject (pairs @ [(key, v)]) (skip_ws r4)
                                  else Inl JSONDecodeError)))))"
  by pat_completeness auto

text \<open>Every scanning function returns strictly less text than it was given; this is what
  makes the mutual recursion terminate.\<close>

lemma length_skip_ws: "length (skip_ws s) \<le> length s"
  by (simp add: skip_ws_def length_dropWhile_le)

lemma scanstring_shorter: "scanstring s = Inr (t, r) \<Longrightarrow> length r < length s"
proof (induction s arbitrary: t r rule: scanstring.induct)
  case 1
  then show ?case by simp
next
  case (2 c cs)
  then show ?case
    by (auto simp: append_char_def split: if_splits list.splits option.splits sum.splits prod.splits)
       fastforce+
qed


lemma match_integer_shorter: "match_integer s = Some (ip, r) \<Longrightarrow> length r < length s"
  by (auto simp: match_integer_def split: list.splits if_splits
      intro: le_imp_less_Suc length_dropWhile_le)

lemma match_frac_shorter: "match_frac s = (f, r) \<Longrightarrow> length r \<le> length s"
  by (auto simp: match_frac_def split: list.splits if_splits
      intro: le_SucI length_dropWhile_le)

lemma match_exp_shorter: "match_exp s = (x, r) \<Longrightarrow> length r \<le> length s"
  by (auto simp: match_exp_def Let_def split: list.splits if_splits prod.splits
      intro: le_SucI length_dropWhile_le)

lemma match_number_shorter:
  assumes "match_number s = Some (ip, f, x, r)"
  shows "length r < length s"
proof -
  obtain sg s1 where sg: "match_sign s = (sg, s1)" by (cases "match_sign s")
  then have l1: "length s1 \<le> length s"
    by (auto simp: match_sign_def split: list.splits if_splits)
  from assms sg obtain ip' s2 where mi: "match_integer s1 = Some (ip', s2)"
    by (auto simp: match_number_def split: option.splits)
  obtain f' s3 where mf: "match_frac s2 = (f', s3)" by (cases "match_frac s2")
  obtain x' s4 where mx: "match_exp s3 = (x', s4)" by (cases "match_exp s3")
  from assms sg mi mf mx have "r = s4"
    by (simp add: match_number_def)
  with l1 match_integer_shorter[OF mi] match_frac_shorter[OF mf] match_exp_shorter[OF mx]
  show ?thesis by simp
qed

lemma scan_shorter_dom:
  "scan_once_JSONArray_JSONObject_dom (Inl s) \<Longrightarrow>
     (\<forall>v r. scan_once s = Inr (v, r) \<longrightarrow> length r < length s)"
  "scan_once_JSONArray_JSONObject_dom (Inr (Inl (vs, s1))) \<Longrightarrow>
     (\<forall>v r. JSONArray vs s1 = Inr (v, r) \<longrightarrow> length r < length s1)"
  "scan_once_JSONArray_JSONObject_dom (Inr (Inr (ps, s2))) \<Longrightarrow>
     (\<forall>v r. JSONObject ps s2 = Inr (v, r) \<longrightarrow> length r < length s2)"
proof (induction s and vs s1 and ps s2 rule: scan_once_JSONArray_JSONObject.pinduct)
  case (1 s)
  show ?case
  proof (intro allI impI)
    fix v r assume a: "scan_once s = Inr (v, r)"
    show "length r < length s"
    proof (cases s)
      case Nil
      with a 1(1) show ?thesis by (simp add: scan_once.psimps)
    next
      case (Cons c cs)
      have sw: "length (skip_ws cs) \<le> length cs" by (rule length_skip_ws)
      consider "c = 34" | "c \<noteq> 34" "c = 123" | "c \<noteq> 34" "c \<noteq> 123" "c = 91"
        | "c \<noteq> 34" "c \<noteq> 123" "c \<noteq> 91" by blast
      then show ?thesis
      proof cases
        case 1
        with a Cons "1.hyps" show ?thesis
          by (auto simp: scan_once.psimps split: sum.splits prod.splits dest!: scanstring_shorter)
      next
        case 2
        show ?thesis
        proof (cases "skip_ws cs")
          case Nil
          with a Cons 2 "1.hyps" show ?thesis by (simp add: scan_once.psimps)
        next
          case (Cons d ds)
          show ?thesis
          proof (cases "d = 125")
            case True
            with a \<open>s = c # cs\<close> 2 Cons "1.hyps" sw show ?thesis
              by (auto simp: scan_once.psimps)
          next
            case False
            with a \<open>s = c # cs\<close> 2 Cons "1.hyps" have "JSONObject [] (skip_ws cs) = Inr (v, r)"
              by (simp add: scan_once.psimps)
            with "1.IH"(1)[OF \<open>s = c # cs\<close> 2(1) 2(2) Cons False] sw \<open>s = c # cs\<close>
            show ?thesis by auto
          qed
        qed
      next
        case 3
        show ?thesis
        proof (cases "skip_ws cs")
          case Nil
          with a Cons 3 "1.hyps" show ?thesis by (simp add: scan_once.psimps)
        next
          case (Cons d ds)
          show ?thesis
          proof (cases "d = 93")
            case True
            with a \<open>s = c # cs\<close> 3 Cons "1.hyps" sw show ?thesis
              by (auto simp: scan_once.psimps)
          next
            case False
            with a \<open>s = c # cs\<close> 3 Cons "1.hyps" have "JSONArray [] (skip_ws cs) = Inr (v, r)"
              by (simp add: scan_once.psimps)
            with "1.IH"(2)[OF \<open>s = c # cs\<close> 3(1) 3(2) 3(3) Cons False] sw \<open>s = c # cs\<close>
            show ?thesis by auto
          qed
        qed
      next
        case 4
        with a Cons "1.hyps" show ?thesis
          by (auto simp: scan_once.psimps split: if_splits option.splits prod.splits
              dest!: match_number_shorter)
      qed
    qed
  qed
next
  case (2 vs s)
  show ?case
  proof (intro allI impI)
    fix v r assume a: "JSONArray vs s = Inr (v, r)"
    from a "2.hyps" obtain v1 r1 where so: "scan_once s = Inr (v1, r1)"
      by (auto simp: JSONArray.psimps split: sum.splits)
    with "2.IH"(1) have l1: "length r1 < length s" by blast
    from a "2.hyps" so obtain c r' where sk: "skip_ws r1 = c # r'"
      by (auto simp: JSONArray.psimps split: list.splits)
    have l2: "length (skip_ws r1) \<le> length r1" by (rule length_skip_ws)
    have l3: "length (skip_ws r') \<le> length r'" by (rule length_skip_ws)
    show "length r < length s"
    proof (cases "c = 93")
      case True
      with a "2.hyps" so sk l1 l2 show ?thesis by (auto simp: JSONArray.psimps)
    next
      case False
      with a "2.hyps" so sk have c: "c = 44" and rec: "JSONArray (vs @ [v1]) (skip_ws r') = Inr (v, r)"
        by (auto simp: JSONArray.psimps split: if_splits)
      from "2.IH"(2)[OF so refl sk False c] rec have "length r < length (skip_ws r')" by blast
      with l1 l2 l3 sk show ?thesis by simp
    qed
  qed
next
  case (3 ps s)
  show ?case
  proof (intro allI impI)
    fix v r assume a: "JSONObject ps s = Inr (v, r)"
    from a "3.hyps" obtain q s1 where s: "s = q # s1" and q: "\<not> q \<noteq> 34"
      by (auto simp: JSONObject.psimps split: list.splits if_splits)
    from a "3.hyps" s q obtain key r1 where ss: "scanstring s1 = Inr (key, r1)"
      by (auto simp: JSONObject.psimps split: sum.splits)
    from a "3.hyps" s q ss obtain c r2 where sk1: "skip_ws r1 = c # r2" and c: "\<not> c \<noteq> 58"
      by (auto simp: JSONObject.psimps split: list.splits if_splits)
    from a "3.hyps" s q ss sk1 c obtain v1 r3 where so: "scan_once (skip_ws r2) = Inr (v1, r3)"
      by (auto simp: JSONObject.psimps split: sum.splits)
    from a "3.hyps" s q ss sk1 c so obtain c' r4 where sk2: "skip_ws r3 = c' # r4"
      by (auto simp: JSONObject.psimps split: list.splits)
    have l1: "length r1 < length s1" using ss by (rule scanstring_shorter)
    have l2: "length (skip_ws r1) \<le> length r1" by (rule length_skip_ws)
    have l3: "length (skip_ws r2) \<le> length r2" by (rule length_skip_ws)
    from "3.IH"(1)[OF s q ss refl sk1 c] so have l4: "length r3 < length (skip_ws r2)" by blast
    have l5: "length (skip_ws r3) \<le> length r3" by (rule length_skip_ws)
    have l6: "length (skip_ws r4) \<le> length r4" by (rule length_skip_ws)
    show "length r < length s"
    proof (cases "c' = 125")
      case True
      with a "3.hyps" s q ss sk1 c so sk2 have "r = r4" by (auto simp: JSONObject.psimps)
      with l1 l2 l3 l4 l5 sk1 sk2 s show ?thesis by simp
    next
      case False
      with a "3.hyps" s q ss sk1 c so sk2 have c': "c' = 44"
        and rec: "JSONObject (ps @ [(key, v1)]) (skip_ws r4) = Inr (v, r)"
        by (auto simp: JSONObject.psimps split: if_splits)
      from "3.IH"(2)[OF s q ss refl sk1 c so refl sk2 False c'] rec
      have "length r < length (skip_ws r4)" by blast
      with l1 l2 l3 l4 l5 l6 sk1 sk2 s show ?thesis by simp
    qed
  qed
qed

termination scan_once
proof (relation "measure (\<lambda>x. case x of Inl s \<Rightarrow> 2 * length s
          | Inr (Inl (vs, s)) \<Rightarrow> 2 * length s + 1
          | Inr (Inr (ps, s)) \<Rightarrow> 2 * length s + 1)", goal_cases)
  case 1
  show ?case by simp
next
  case (2 s c cs d ds)
  then show ?case using length_skip_ws[of cs] by simp
next
  case (3 s c cs d ds)
  then show ?case using length_skip_ws[of cs] by simp
next
  case (4 vs s)
  then show ?case by simp
next
  case (5 vs s b v r c r')
  then show ?case
    using scan_shorter_dom(1)[of s] length_skip_ws[of r] length_skip_ws[of r'] by auto
next
  case (6 ps s q s1 b key r1 c r2)
  then show ?case
    using scanstring_shorter[of s1 key r1] length_skip_ws[of r1] length_skip_ws[of r2] by auto
next
  case (7 ps s q s1 b key r1 c r2 ba v r3 c' r4)
  then show ?case
    using scanstring_shorter[of s1 key r1] length_skip_ws[of r1] length_skip_ws[of r2]
      scan_shorter_dom(1)[of "skip_ws r2"] length_skip_ws[of r3] length_skip_ws[of r4]
    by auto
qed


text \<open>
  \<^verbatim>\<open>json.loads(s)\<close> for a \<^verbatim>\<open>str\<close>: a leading byte order mark (U+FEFF) is refused,
  white space around the one value is skipped, anything after it is "Extra data".
\<close>

definition json_loads :: "str \<Rightarrow> exn + json" where
  "json_loads s =
     (if startswith [65279] s then Inl JSONDecodeError
      else case scan_once (skip_ws s) of
             Inl e \<Rightarrow> Inl e
           | Inr (obj, r) \<Rightarrow> if skip_ws r = [] then Inr obj else Inl JSONDecodeError)"

subsection \<open>json.dumps\<close>

text \<open>
  \<^verbatim>\<open>json.dumps(obj, ensure_ascii=False)\<close> with the default separators \<^verbatim>\<open>', '\<close> and
  \<^verbatim>\<open>': '\<close>. A string is quoted with the quote, the backslash and the control characters
  below 32 escaped (\<^verbatim>\<open>ESCAPE\<close> and \<^verbatim>\<open>ESCAPE_DCT\<close> of \<^verbatim>\<open>json/encoder.py\<close>); every
  other code point is written as it is.
\<close>

definition hex_digit :: "nat \<Rightarrow> nat" where
  "hex_digit d = (if d < 10 then 48 + d else 87 + d)"

definition escape_char :: "nat \<Rightarrow> str" where
  "escape_char c =
     (if c = 92 then [92, 92]
      else if c = 34 then [92, 34]
      else if c = 8 then [92, 98]
      else if c = 12 then [92, 102]
      else if c = 10 then [92, 110]
      else if c = 13 then [92, 114]
      else if c = 9 then [92, 116]
      else if c < 32 then [92, 117, 48, 48, hex_digit (c div 16), hex_digit (c mod 16)]
      else [c])"

definition encode_basestring :: "str \<Rightarrow> str" where
  "encode_basestring s = [34] @ concat (map escape_char s) @ [34]"

text \<open>\<^verbatim>\<open>int.__repr__\<close>: the decimal digits, with a minus sign for a negative number.\<close>

function digits :: "nat \<Rightarrow> str" where
  "digits n = (if n < 10 then [48 + n] else digits (n div 10) @ [48 + n mod 10])"
  by pat_completeness auto
termination
  by (relation "measure id") auto

definition int_repr :: "int \<Rightarrow> str" where
  "int_repr i = (if i < 0 then 45 # digits (nat (- i)) else digits (nat i))"

text \<open>\<^verbatim>\<open>sep.join(parts)\<close>.\<close>

fun join :: "str \<Rightarrow> str list \<Rightarrow> str" where
  "join sep [] = []"
| "join sep [x] = x"
| "join sep (x # y # ys) = x @ sep @ join sep (y # ys)"

fun json_dumps :: "(str \<Rightarrow> str) \<Rightarrow> json \<Rightarrow> str" where
  "json_dumps frepr JNull = ascii ''null''"
| "json_dumps frepr (JBool b) = (if b then ascii ''true'' else ascii ''false'')"
| "json_dumps frepr (JInt i) = int_repr i"
| "json_dumps frepr (JFloat l) = frepr l"
| "json_dumps frepr (JStr s) = encode_basestring s"
| "json_dumps frepr (JArr xs) = [91] @ join [44, 32] (map (json_dumps frepr) xs) @ [93]"
| "json_dumps frepr (JObj kvs) =
     [123] @ join [44, 32]
       (map (\<lambda>kv. encode_basestring (fst kv) @ [58, 32] @ json_dumps frepr (snd kv)) kvs)
     @ [125]"

subsection \<open>Operations of Python objects used by the provider\<close>

text \<open>
  \<^verbatim>\<open>len(x)\<close>, \<^verbatim>\<open>x[0]\<close>, \<^verbatim>\<open>x[key]\<close> for a string key, \<^verbatim>\<open>key in x\<close> and the
  presence of the method \<^verbatim>\<open>get\<close>, on the values \<^verbatim>\<open>json.loads\<close> returns. The keys of a
  decoded object are strings, so the integer \<open>0\<close> is never one of them.
\<close>

definition py_len :: "json \<Rightarrow> exn + nat" where
  "py_len x =
     (case x of
        JArr xs \<Rightarrow> Inr (length xs)
      | JObj kvs \<Rightarrow> Inr (length kvs)
      | JStr s \<Rightarrow> Inr (length s)
      | _ \<Rightarrow> Inl TypeError)"

definition py_getitem0 :: "json \<Rightarrow> exn + json" where
  "py_getitem0 x =
     (case x of
        JArr xs \<Rightarrow> (case xs of [] \<Rightarrow> Inl IndexError | y # ys \<Rightarrow> Inr y)
      | JStr s \<Rightarrow> (case s of [] \<Rightarrow> Inl IndexError | c # cs \<Rightarrow> Inr (JStr [c]))
      | JObj kvs \<Rightarrow> Inl KeyError
      | _ \<Rightarrow> Inl TypeError)"

definition py_getitem :: "json \<Rightarrow> str \<Rightarrow> exn + json" where
  "py_getitem x key =
     (case x of
        JObj kvs \<Rightarrow> (case map_of kvs key of None \<Rightarrow> Inl KeyError | Some v \<Rightarrow> Inr v)
      | _ \<Rightarrow> Inl TypeError)"

fun is_substring :: "str \<Rightarrow> str \<Rightarrow> bool" where
  "is_substring pat [] = (pat = [])"
| "is_substring pat (c # cs) = (startswith pat (c # cs) \<or> is_substring pat cs)"

definition py_contains :: "str \<Rightarrow> json \<Rightarrow> exn + bool" where
  "py_contains key x =
     (case x of
        JObj kvs \<Rightarrow> Inr (map_of kvs key \<noteq> None)
      | JArr xs \<Rightarrow> Inr (JStr key \<in> set xs)
      | JStr s \<Rightarrow> Inr (is_substring key s)
      | _ \<Rightarrow> Inl TypeError)"

definition has_get :: "json \<Rightarrow> bool" where
  "has_get x = (case x of JObj kvs \<Rightarrow> True | _ \<Rightarrow> False)"

subsection \<open>IntentProvider.parse\_text\<close>

text \<open>
  Lines 44--69. The three regions are searched independently, a missing region gives the
  empty string, and \<^verbatim>\<open>json.loads\<close> of the tool call region is not guarded. The
  dictionary returned is the \<open>JObj\<close> with the keys in the order of the literal.
\<close>

definition group_or_empty :: "str option \<Rightarrow> str" where
  "group_or_empty m = (case m of None \<Rightarrow> [] | Some g \<Rightarrow> strip g)"

definition parse_text :: "str \<Rightarrow> exn + json" where
  "parse_text text =
     (let tags_match = re_search_group (ascii ''<tags>'') (ascii ''</tags>'') text;
          tool_call_match = re_search_group (ascii ''<tool_call>'') (ascii ''</tool_call>'') text;
          content_match = re_search_group (ascii ''<content>'') (ascii ''</content>'') text;
          tags = group_or_empty tags_match;
          tool_call = group_or_empty tool_call_match;
          content = group_or_empty content_match
      in case json_loads tool_call of
           Inl e \<Rightarrow> Inl e
         | Inr tools \<Rightarrow>
             (case py_len tools of
                Inl e \<Rightarrow> Inl e
              | Inr n \<Rightarrow>
                  if n = 0 then
                    Inr (JObj [(ascii ''tags'', JStr tags), (ascii ''content'', JStr content)])
                  else
                    (case py_getitem0 tools of
                       Inl e \<Rightarrow> Inl e
                     | Inr first \<Rightarrow>
                         Inr (JObj [(ascii ''tags'', JStr tags),
                                    (ascii ''function_call'', first),
                                    (ascii ''content'', JStr content)]))))"


subsection \<open>The cache key: hashlib.md5(text.encode()).hexdigest()\<close>

text \<open>
  \<^verbatim>\<open>str.encode()\<close> is UTF-8; a surrogate code point cannot be encoded and raises
  \<^verbatim>\<open>UnicodeEncodeError\<close>. Bytes are natural numbers below 256.
\<close>

definition utf8_char :: "nat \<Rightarrow> exn + nat list" where
  "utf8_char c =
     (if c < 128 then Inr [c]
      else if c < 2048 then Inr [192 + c div 64, 128 + c mod 64]
      else if 55296 \<le> c \<and> c \<le> 57343 then Inl UnicodeEncodeError
      else if c < 65536 then Inr [224 + c div 4096, 128 + c div 64 mod 64, 128 + c mod 64]
      else Inr [240 + c div 262144, 128 + c div 4096 mod 64, 128 + c div 64 mod 64,
                128 + c mod 64])"

fun str_encode :: "str \<Rightarrow> exn + nat list" where
  "str_encode [] = Inr []"
| "str_encode (c # cs) =
     (case utf8_char c of
        Inl e \<Rightarrow> Inl e
      | Inr bs \<Rightarrow> (case str_encode cs of Inl e \<Rightarrow> Inl e | Inr rest \<Rightarrow> Inr (bs @ rest)))"

text \<open>MD5 (RFC 1321) on 32-bit words: the sine table, the shifts, the padding, the rounds.\<close>

definition md5_K :: "32 word list" where
  "md5_K =
    [3614090360, 3905402710, 606105819, 3250441966, 4118548399, 1200080426,
     2821735955, 4249261313, 1770035416, 2336552879, 4294925233, 2304563134,
     1804603682, 4254626195, 2792965006, 1236535329, 4129170786, 3225465664,
     643717713, 3921069994, 3593408605, 38016083, 3634488961, 3889429448,
     568446438, 3275163606, 4107603335, 1163531501, 2850285829, 4243563512,
     1735328473, 2368359562, 4294588738, 2272392833, 1839030562, 4259657740,
     2763975236, 1272893353, 4139469664, 3200236656, 681279174, 3936430074,
     3572445317, 76029189, 3654602809, 3873151461, 530742520, 3299628645,
     4096336452, 1126891415, 2878612391, 4237533241, 1700485571, 2399980690,
     4293915773, 2240044497, 1873313359, 4264355552, 2734768916, 1309151649,
     4149444226, 3174756917, 718787259, 3951481745]"

definition md5_s :: "nat list" where
  "md5_s =
    [7, 12, 17, 22, 7, 12, 17, 22, 7, 12, 17, 22, 7, 12, 17, 22,
     5, 9, 14, 20, 5, 9, 14, 20, 5, 9, 14, 20, 5, 9, 14, 20,
     4, 11, 16, 23, 4, 11, 16, 23, 4, 11, 16, 23, 4, 11, 16, 23,
     6, 10, 15, 21, 6, 10, 15, 21, 6, 10, 15, 21, 6, 10, 15, 21]"

definition le_bytes :: "nat \<Rightarrow> nat \<Rightarrow> nat list" where
  "le_bytes k n = map (\<lambda>i. n div 256 ^ i mod 256) [0..<k]"

definition md5_pad :: "nat list \<Rightarrow> nat list" where
  "md5_pad m =
     m @ [128] @ replicate ((119 - length m mod 64) mod 64) 0
       @ le_bytes 8 (8 * length m mod 2 ^ 64)"

definition le_word :: "nat list \<Rightarrow> 32 word" where
  "le_word bs = of_nat (foldr (\<lambda>b acc. b + 256 * acc) bs 0)"

definition block_words :: "nat list \<Rightarrow> 32 word list" where
  "block_words blk = map (\<lambda>i. le_word (take 4 (drop (4 * i) blk))) [0..<16]"

type_synonym md5_state = "32 word \<times> 32 word \<times> 32 word \<times> 32 word"

definition md5_round :: "32 word list \<Rightarrow> md5_state \<Rightarrow> nat \<Rightarrow> md5_state" where
  "md5_round M st i =
     (case st of (A, B, C, D) \<Rightarrow>
        let (F, g) =
              (if i < 16 then ((B AND C) OR (NOT B AND D), i)
               else if i < 32 then ((D AND B) OR (NOT D AND C), (5 * i + 1) mod 16)
               else if i < 48 then (B XOR C XOR D, (3 * i + 5) mod 16)
               else (C XOR (B OR NOT D), (7 * i) mod 16))
        in (D, B + word_rotl (md5_s ! i) (A + F + md5_K ! i + M ! g), B, C))"

definition md5_block :: "md5_state \<Rightarrow> nat list \<Rightarrow> md5_state" where
  "md5_block h blk =
     (case h of (a0, b0, c0, d0) \<Rightarrow>
        (case foldl (md5_round (block_words blk)) h [0..<64] of
           (A, B, C, D) \<Rightarrow> (a0 + A, b0 + B, c0 + C, d0 + D)))"

definition md5_digest :: "nat list \<Rightarrow> nat list" where
  "md5_digest m =
     (let p = md5_pad m;
          blocks = map (\<lambda>i. take 64 (drop (64 * i) p)) [0..<length p div 64]
      in case foldl md5_block (1732584193, 4023233417, 2562383102, 271733878) blocks of
           (a, b, c, d) \<Rightarrow> concat (map (\<lambda>w. le_bytes 4 (unat w)) [a, b, c, d]))"

definition hexdigest :: "nat list \<Rightarrow> str" where
  "hexdigest bs = concat (map (\<lambda>b. [hex_digit (b div 16), hex_digit (b mod 16)]) bs)"

definition cache_key_of :: "str \<Rightarrow> exn + str" where
  "cache_key_of text =
     (case str_encode text of Inl e \<Rightarrow> Inl e | Inr bs \<Rightarrow> Inr (hexdigest (md5_digest bs)))"


subsection \<open>The provider, its collaborators and the Python runtime\<close>

text \<open>
  \<open>runtime\<close> holds what the interpreter supplies: the readings of \<^verbatim>\<open>time.time()\<close> and
  the printing of floats. An LLM client is its method \<^verbatim>\<open>response_no_stream\<close>, from the
  system prompt and the user prompt to the response or the exception it raises. \<open>conn\<close>
  holds the outcomes of the two calls made on the connection:
  \<^verbatim>\<open>initialize_music_handler(conn)\<close> and \<^verbatim>\<open>conn.func_handler.get_functions()\<close>.

  \<open>provider\<close> is \<^verbatim>\<open>self\<close> (\<open>llm\<close>, \<open>intent_cache\<close>) together with the trace of the
  effects of the calls: the number of clock readings taken and the list of the calls made
  to the LLM client. \<^verbatim>\<open>__init__\<close> sets \<^verbatim>\<open>cache_expiry = 600\<close> and
  \<^verbatim>\<open>cache_max_size = 100\<close>; nothing assigns them afterwards.
\<close>

record cache_entry =
  intent :: str
  timestamp :: real

type_synonym cache = "(str \<times> cache_entry) list"

type_synonym llm_client = "str \<Rightarrow> str \<Rightarrow> exn + str"

record runtime =
  time_time :: "nat \<Rightarrow> real"
  float_repr :: "str \<Rightarrow> str"

record conn =
  initialize_music_handler :: "exn + json"
  get_functions :: "exn + json list"

record provider =
  llm :: "llm_client option"
  intent_cache :: cache
  clock_reads :: nat
  llm_calls :: "(str \<times> str) list"

definition cache_expiry :: real where
  "cache_expiry = 600"

definition cache_max_size :: nat where
  "cache_max_size = 100"

definition init_provider :: provider where
  "init_provider = \<lparr>llm = None, intent_cache = [], clock_reads = 0, llm_calls = []\<rparr>"

text \<open>A call of \<^verbatim>\<open>time.time()\<close> returns \<open>now rt self\<close> and leaves \<open>tick self\<close>.\<close>

definition now :: "runtime \<Rightarrow> provider \<Rightarrow> real" where
  "now rt self = time_time rt (clock_reads self)"

definition tick :: "provider \<Rightarrow> provider" where
  "tick self = self\<lparr>clock_reads := Suc (clock_reads self)\<rparr>"

subsection \<open>IntentProvider.clean\_cache\<close>

text \<open>
  Lines 23--42. \<open>del_keys\<close> is the loop \<^verbatim>\<open>for key in keys: del self.intent_cache[key]\<close>;
  \<^verbatim>\<open>sorted\<close> is stable, as \<open>sort_key\<close> is.
\<close>

definition del_keys :: "str list \<Rightarrow> cache \<Rightarrow> cache" where
  "del_keys ks c = foldl (\<lambda>d k. AList.delete k d) c ks"

definition clean_cache :: "runtime \<Rightarrow> provider \<Rightarrow> provider" where
  "clean_cache rt self =
     (let t = now rt self;
          expired_keys = map fst (filter (\<lambda>kv. t - timestamp (snd kv) > cache_expiry)
                                    (intent_cache self));
          cache1 = del_keys expired_keys (intent_cache self);
          cache2 =
            (if length cache1 > cache_max_size then
               (let sorted_items = sort_key (\<lambda>x. timestamp (snd x)) cache1
                in del_keys (map fst (take (length sorted_items - cache_max_size) sorted_items))
                     cache1)
             else cache1)
      in tick (self\<lparr>intent_cache := cache2\<rparr>))"

subsection \<open>IntentProvider.detect\_intent\<close>

text \<open>
  Lines 99--110: the music handler is initialised and its file names are read (and not
  used), the function schemas of the registry are collected and serialised into the
  system prompt.
\<close>

fun collect_functions :: "json list \<Rightarrow> exn + json list" where
  "collect_functions [] = Inr []"
| "collect_functions (x # xs) =
     (case py_getitem x (ascii ''function'') of
        Inl e \<Rightarrow> Inl e
      | Inr f \<Rightarrow> (case collect_functions xs of Inl e \<Rightarrow> Inl e | Inr fs \<Rightarrow> Inr (f # fs)))"

definition system_prompt_of :: "str \<Rightarrow> str" where
  "system_prompt_of tools_string =
     ascii (''You are Qwen, created by Alibaba Cloud. You are a helpful assistant. ''
            @ ''You may call one or more tools to assist with the user query. ''
            @ ''The tools you can use are as follows:'')
     @ [10] @ ascii ''        '' @ tools_string
     @ [10] @ ascii ''        Response in INTENT_MODE.''"

definition build_system_prompt :: "runtime \<Rightarrow> conn \<Rightarrow> exn + str" where
  "build_system_prompt rt c =
     (case initialize_music_handler c of
        Inl e \<Rightarrow> Inl e
      | Inr music_config \<Rightarrow>
          (case py_getitem music_config (ascii ''music_file_names'') of
             Inl e \<Rightarrow> Inl e
           | Inr music_file_names \<Rightarrow>
               (case get_functions c of
                  Inl e \<Rightarrow> Inl e
                | Inr tools \<Rightarrow>
                    (case collect_functions tools of
                       Inl e \<Rightarrow> Inl e
                     | Inr fs \<Rightarrow>
                         Inr (system_prompt_of (json_dumps (float_repr rt) (JArr fs)))))))"

text \<open>The literal returned by the handler of line 175: the intent "continue chatting".\<close>

definition fallback_intent :: str where
  \<open>fallback_intent = ascii ''{"intent": "'' @ [32487, 32493, 32842, 22825] @ ascii ''"}''\<close>

text \<open>The assignment of lines 151 and 164, stamped with a fresh clock reading.\<close>

definition store_intent :: "runtime \<Rightarrow> str \<Rightarrow> str \<Rightarrow> provider \<Rightarrow> provider" where
  "store_intent rt cache_key intent_str self =
     tick (self\<lparr>intent_cache :=
             AList.update cache_key \<lparr>intent = intent_str, timestamp = now rt self\<rparr>
               (intent_cache self)\<rparr>)"

text \<open>
  Lines 137--182, the \<^verbatim>\<open>try\<close> statement, given the outcome \<open>loaded\<close> of
  \<^verbatim>\<open>json.loads(intent)\<close>. Only \<^verbatim>\<open>json.JSONDecodeError\<close> is caught. In the branch
  of a function call, \<^verbatim>\<open>function_data.get\<close> exists only on a dictionary. Each branch
  reads the clock once more for the time it logs.
\<close>

definition try_decode ::
  "runtime \<Rightarrow> provider \<Rightarrow> str \<Rightarrow> str \<Rightarrow> exn + json \<Rightarrow> (exn + str) \<times> provider" where
  "try_decode rt self cache_key intent_str loaded =
     (case loaded of
        Inl e \<Rightarrow>
          if e = JSONDecodeError then (Inr fallback_intent, tick self) else (Inl e, self)
      | Inr intent_data \<Rightarrow>
          (case py_contains (ascii ''function_call'') intent_data of
             Inl e \<Rightarrow> (Inl e, self)
           | Inr True \<Rightarrow>
               (case py_getitem intent_data (ascii ''function_call'') of
                  Inl e \<Rightarrow> (Inl e, self)
                | Inr function_data \<Rightarrow>
                    if \<not> has_get function_data then (Inl AttributeError, self)
                    else (Inr intent_str, tick (store_intent rt cache_key intent_str self)))
           | Inr False \<Rightarrow> (Inr intent_str, tick (store_intent rt cache_key intent_str self))))"

text \<open>
  Lines 96--182, what runs when the cache has no usable entry: the clean-up, the prompt,
  the call of the LLM client (recorded in \<open>llm_calls\<close>), \<^verbatim>\<open>parse_text\<close> on the stripped
  response, \<^verbatim>\<open>json.dumps\<close> and the \<^verbatim>\<open>try\<close> statement.
\<close>

definition detect_uncached ::
  "runtime \<Rightarrow> provider \<Rightarrow> conn \<Rightarrow> llm_client \<Rightarrow> str \<Rightarrow> str \<Rightarrow> (exn + str) \<times> provider" where
  "detect_uncached rt self c client cache_key text =
     (let self1 = clean_cache rt self
      in case build_system_prompt rt c of
           Inl e \<Rightarrow> (Inl e, self1)
         | Inr system_prompt \<Rightarrow>
             (let self2 = tick (tick self1);
                  self3 = self2\<lparr>llm_calls := llm_calls self2 @ [(system_prompt, text)]\<rparr>
              in case client system_prompt text of
                   Inl e \<Rightarrow> (Inl e, self3)
                 | Inr response \<Rightarrow>
                     (let self4 = tick (tick self3)
                      in case parse_text (strip response) of
                           Inl e \<Rightarrow> (Inl e, self4)
                         | Inr parsed \<Rightarrow>
                             (let intent_str = json_dumps (float_repr rt) parsed
                              in try_decode rt self4 cache_key intent_str
                                   (json_loads intent_str)))))"

text \<open>
  Lines 71--94. The check of the LLM client comes first; the clock is read once for the
  log, the key is computed, and a cached entry is returned when the reading taken at line
  89 is at most \<open>cache_expiry\<close> after its time stamp. \<open>dialogue_history\<close> is not used.
\<close>

definition detect_intent ::
  "runtime \<Rightarrow> provider \<Rightarrow> conn \<Rightarrow> json list \<Rightarrow> str \<Rightarrow> (exn + str) \<times> provider" where
  "detect_intent rt self c dialogue_history text =
     (case llm self of
        None \<Rightarrow> (Inl (ValueError ''LLM provider not set''), self)
      | Some client \<Rightarrow>
          (let self1 = tick self
           in case cache_key_of text of
                Inl e \<Rightarrow> (Inl e, self1)
              | Inr cache_key \<Rightarrow>
                  (case map_of (intent_cache self1) cache_key of
                     None \<Rightarrow> detect_uncached rt self1 c client cache_key text
                   | Some entry \<Rightarrow>
                       if now rt self1 - timestamp entry \<le> cache_expiry
                       then (Inr (intent entry), tick (tick self1))
                       else detect_uncached rt (tick self1) c client cache_key text)))"

subsection \<open>Notions used to state the properties\<close>

text \<open>
  \<open>cache_miss\<close> is the negation of the test of lines 86--89 for a key: no entry, or an
  entry whose time stamp is more than \<open>cache_expiry\<close> before the reading taken at line
  89 (the second reading of the call). \<open>after_lookup\<close> is the provider with which line
  97 is then reached: one reading taken when the key is absent, two when it is stale.
\<close>

definition cache_miss :: "runtime \<Rightarrow> provider \<Rightarrow> str \<Rightarrow> bool" where
  "cache_miss rt self k =
     (case map_of (intent_cache self) k of
        None \<Rightarrow> True
      | Some e \<Rightarrow> time_time rt (Suc (clock_reads self)) - timestamp e > cache_expiry)"

definition after_lookup :: "provider \<Rightarrow> str \<Rightarrow> provider" where
  "after_lookup self k =
     (case map_of (intent_cache self) k of
        None \<Rightarrow> tick self
      | Some e \<Rightarrow> tick (tick self))"

text \<open>
  What \<^verbatim>\<open>json.dumps\<close> writes for a float: \<^verbatim>\<open>NaN\<close>, \<^verbatim>\<open>Infinity\<close>,
  \<^verbatim>\<open>-Infinity\<close>, or the text of \<^verbatim>\<open>float.__repr__\<close>, which is a number with a
  fraction or an exponent (\<^verbatim>\<open>1.0\<close>, \<^verbatim>\<open>-0.0015\<close>, \<^verbatim>\<open>1e+16\<close>, \<^verbatim>\<open>5e-324\<close>):
  the whole text matches \<^verbatim>\<open>NUMBER_RE\<close> and the second or the third group is not
  empty. \<open>float_text\<close> is the condition under which a runtime prints floats as Python
  does, as far as the decoder can tell.
\<close>

definition float_text :: "str \<Rightarrow> bool" where
  "float_text t =
     (if t = [78, 97, 78] \<or> t = [73, 110, 102, 105, 110, 105, 116, 121]
         \<or> t = [45, 73, 110, 102, 105, 110, 105, 116, 121] then True
      else case match_number t of
             None \<Rightarrow> False
           | Some (ip, frc, ex, r) \<Rightarrow> r = [] \<and> (frc \<noteq> [] \<or> ex \<noteq> []))"

text \<open>
  Concrete collaborators for the instances: a runtime whose clock always shows \<open>t\<close> and
  which prints a float by the text it was read from (\<^verbatim>\<open>NaN\<close> for a text that is not
  one of a float), a connection with no music files and no registered function, and a
  provider whose LLM client always answers \<open>response\<close>.
\<close>

definition example_runtime :: "real \<Rightarrow> runtime" where
  "example_runtime t =
     \<lparr>time_time = (\<lambda>k. t),
      float_repr = (\<lambda>l. if float_text l then l else [78, 97, 78])\<rparr>"

definition example_conn :: conn where
  "example_conn =
     \<lparr>initialize_music_handler = Inr (JObj [(ascii ''music_file_names'', JArr [])]),
      get_functions = Inr []\<rparr>"

definition example_provider :: "str \<Rightarrow> cache \<Rightarrow> provider" where
  "example_provider response c =
     \<lparr>llm = Some (\<lambda>system_prompt user_prompt. Inr response), intent_cache = c,
      clock_reads = 0, llm_calls = []\<rparr>"

text \<open>A cache of \<open>n\<close> entries with the keys \<open>[0]\<close>, \<open>[1]\<close>, ... stamped 0, 1, ...\<close>

definition example_cache :: "nat \<Rightarrow> cache" where
  "example_cache n = map (\<lambda>i. ([i], \<lparr>intent = [], timestamp = real i\<rparr>)) [0..<n]"

text \<open>
  Notions of the proof that \<^verbatim>\<open>json.loads\<close> accepts what \<^verbatim>\<open>json.dumps\<close> writes.
  \<open>value_end\<close>: the text after a value inside the output of \<^verbatim>\<open>json.dumps\<close> is
  empty or starts with a comma or a closing bracket. \<open>starts_value\<close>: the first
  character of the text is not white space, not a closing square bracket and not a byte
  order mark. \<open>scans_back\<close>: the text written for a value starts like one, and
  \<open>scan_once\<close> reads a value off it and stops exactly where it ends.
\<close>

definition value_end :: "str \<Rightarrow> bool" where
  "value_end rest = (case rest of [] \<Rightarrow> True | c # cs \<Rightarrow> c = 44 \<or> c = 93 \<or> c = 125)"

definition starts_value :: "str \<Rightarrow> bool" where
  "starts_value s =
     (case s of [] \<Rightarrow> False | c # cs \<Rightarrow> \<not> json_ws c \<and> c \<noteq> 93 \<and> c \<noteq> 65279)"

definition scans_back :: "(str \<Rightarrow> str) \<Rightarrow> json \<Rightarrow> bool" where
  "scans_back frepr v \<longleftrightarrow>
     starts_value (json_dumps frepr v)
     \<and> (\<forall>rest. value_end rest \<longrightarrow>
           (\<exists>v'. scan_once (json_dumps frepr v @ rest) = Inr (v', rest)))"

section \<open>Properties\<close>

subsection \<open>Auxiliary facts about the state\<close>

lemma ascii_Nil: "ascii [] = []"
  by (simp add: ascii_def)

lemma ascii_Cons: "ascii (c # cs) = of_char c # ascii cs"
  by (simp add: ascii_def)

lemma tick_fields:
  "llm (tick self) = llm self"
  "intent_cache (tick self) = intent_cache self"
  "clock_reads (tick self) = Suc (clock_reads self)"
  "llm_calls (tick self) = llm_calls self"
  by (simp_all add: tick_def)

lemma clean_cache_fields:
  "llm (clean_cache rt self) = llm self"
  "clock_reads (clean_cache rt self) = Suc (clock_reads self)"
  "llm_calls (clean_cache rt self) = llm_calls self"
  by (simp_all add: clean_cache_def Let_def tick_def)

lemma store_intent_fields:
  "llm (store_intent rt k i self) = llm self"
  "clock_reads (store_intent rt k i self) = Suc (clock_reads self)"
  "llm_calls (store_intent rt k i self) = llm_calls self"
  "intent_cache (store_intent rt k i self) =
     AList.update k \<lparr>intent = i, timestamp = now rt self\<rparr> (intent_cache self)"
  by (simp_all add: store_intent_def tick_def)

lemma try_decode_llm_calls:
  "llm_calls (snd (try_decode rt self k i loaded)) = llm_calls self"
  by (auto simp: try_decode_def tick_fields store_intent_fields
      split: sum.splits bool.splits if_splits)

lemma detect_uncached_llm_calls:
  assumes "build_system_prompt rt c = Inr sp"
  shows "llm_calls (snd (detect_uncached rt self c client k text)) = llm_calls self @ [(sp, text)]"
  using assms
  by (auto simp: detect_uncached_def Let_def tick_fields clean_cache_fields try_decode_llm_calls
      split: sum.splits)

subsection \<open>C7: no LLM client\<close>

text \<open>
  C7. When no LLM client is set, \<open>detect_intent\<close> raises the error of line 73,
  \<^verbatim>\<open>ValueError("LLM provider not set")\<close>, for every input. The provider it leaves is
  the provider it was given: the cache is the same, no clock reading was taken and the
  client was not called; the result does not depend on the cache.
\<close>

theorem detect_intent_without_llm:
  "llm self = None \<Longrightarrow>
     detect_intent rt self c dialogue_history text
       = (Inl (ValueError ''LLM provider not set''), self)"
  by (simp add: detect_intent_def)

theorem detect_intent_without_llm_witness:
  "llm init_provider = None \<and>
   detect_intent (example_runtime 0) init_provider example_conn [] (ascii ''hi'')
     = (Inl (ValueError ''LLM provider not set''), init_provider)"
  using detect_intent_without_llm [of init_provider "example_runtime 0" example_conn "[]"
      "ascii ''hi''"]
  by (simp add: init_provider_def)

lemma detect_intent_miss:
  assumes "llm self = Some client" "cache_key_of text = Inr k" "cache_miss rt self k"
  shows "detect_intent rt self c dh text = detect_uncached rt (after_lookup self k) c client k text"
  using assms
  by (auto simp: detect_intent_def cache_miss_def after_lookup_def Let_def tick_fields now_def
      split: option.splits)

lemma cache_key_of_hi: "cache_key_of (ascii ''hi'') = Inr (hexdigest (md5_digest [104, 105]))"
  by (simp add: cache_key_of_def ascii_Cons ascii_Nil utf8_char_def)

lemma example_prompt:
  "build_system_prompt (example_runtime t) example_conn = Inr (system_prompt_of (ascii ''[]''))"
  by (simp add: build_system_prompt_def example_runtime_def example_conn_def py_getitem_def
      ascii_Cons ascii_Nil)

subsection \<open>C1: a cached intent within its time to live\<close>

text \<open>
  C1. Let the LLM client be set and let the cache hold an entry under the MD5 key of the
  text. If the reading taken at line 89 is at most 600 seconds after the entry's time
  stamp, \<open>detect_intent\<close> returns the cached intent string as it is, and the provider
  differs only by the three clock readings taken: the log of calls to
  \<^verbatim>\<open>response_no_stream\<close> and the cache are the same. If the reading is more than 600
  seconds after the time stamp, the call runs exactly the code of a miss (lines 96--182),
  and when the system prompt can be built the client is called once with the text.
\<close>

theorem cached_intent_within_ttl:
  assumes "llm self = Some client"
    and "cache_key_of text = Inr k"
    and "map_of (intent_cache self) k = Some e"
  shows "(time_time rt (Suc (clock_reads self)) - timestamp e \<le> 600 \<longrightarrow>
            detect_intent rt self c dialogue_history text
              = (Inr (intent e), self\<lparr>clock_reads := clock_reads self + 3\<rparr>)
            \<and> llm_calls (snd (detect_intent rt self c dialogue_history text)) = llm_calls self
            \<and> intent_cache (snd (detect_intent rt self c dialogue_history text))
                = intent_cache self)
       \<and> (time_time rt (Suc (clock_reads self)) - timestamp e > 600 \<longrightarrow>
            detect_intent rt self c dialogue_history text
              = detect_uncached rt (self\<lparr>clock_reads := clock_reads self + 2\<rparr>) c client k text
            \<and> (\<forall>sp. build_system_prompt rt c = Inr sp \<longrightarrow>
                  llm_calls (snd (detect_intent rt self c dialogue_history text))
                    = llm_calls self @ [(sp, text)]))"
  using assms
  by (auto simp: detect_intent_def Let_def tick_def now_def cache_expiry_def
      detect_uncached_llm_calls)

theorem cached_intent_within_ttl_witness:
  "detect_intent (example_runtime 1200)
      (example_provider []
         [(hexdigest (md5_digest [104, 105]), \<lparr>intent = ascii ''x'', timestamp = 600\<rparr>)])
      example_conn [] (ascii ''hi'')
     = (Inr (ascii ''x''),
        (example_provider []
           [(hexdigest (md5_digest [104, 105]), \<lparr>intent = ascii ''x'', timestamp = 600\<rparr>)])
          \<lparr>clock_reads := 3\<rparr>)
   \<and> llm_calls (snd (detect_intent (example_runtime 1200)
      (example_provider []
         [(hexdigest (md5_digest [104, 105]), \<lparr>intent = ascii ''x'', timestamp = 599\<rparr>)])
      example_conn [] (ascii ''hi'')))
     = [(system_prompt_of (ascii ''[]''), ascii ''hi'')]"
proof -
  let ?p = "\<lambda>ts. example_provider []
         [(hexdigest (md5_digest [104, 105]), \<lparr>intent = ascii ''x'', timestamp = ts\<rparr>)]"
  have a: "llm (?p ts) = Some (\<lambda>system_prompt user_prompt. Inr [])" for ts
    by (simp add: example_provider_def)
  have b: "map_of (intent_cache (?p ts)) (hexdigest (md5_digest [104, 105]))
             = Some \<lparr>intent = ascii ''x'', timestamp = ts\<rparr>" for ts
    by (simp add: example_provider_def)
  from cached_intent_within_ttl [OF a cache_key_of_hi b, of "example_runtime 1200" 600 example_conn "[]"]
  have 1: "detect_intent (example_runtime 1200) (?p 600) example_conn [] (ascii ''hi'')
     = (Inr (ascii ''x''), (?p 600) \<lparr>clock_reads := 3\<rparr>)"
    by (simp add: example_runtime_def example_provider_def)
  have t: "time_time (example_runtime 1200) (Suc (clock_reads (?p 599)))
             - timestamp \<lparr>intent = ascii ''x'', timestamp = 599\<rparr> > 600"
    by (simp add: example_runtime_def)
  from cached_intent_within_ttl [OF a cache_key_of_hi b, of "example_runtime 1200" 599 example_conn "[]"] t
  have "\<forall>sp. build_system_prompt (example_runtime 1200) example_conn = Inr sp \<longrightarrow>
          llm_calls (snd (detect_intent (example_runtime 1200) (?p 599) example_conn [] (ascii ''hi'')))
            = llm_calls (?p 599) @ [(sp, ascii ''hi'')]"
    by blast
  with example_prompt
  have "llm_calls (snd (detect_intent (example_runtime 1200) (?p 599) example_conn [] (ascii ''hi'')))
            = llm_calls (?p 599) @ [(system_prompt_of (ascii ''[]''), ascii ''hi'')]"
    by blast
  then have 2: "llm_calls (snd (detect_intent (example_runtime 1200) (?p 599) example_conn [] (ascii ''hi'')))
     = [(system_prompt_of (ascii ''[]''), ascii ''hi'')]"
    by (simp add: example_provider_def)
  from 1 2 show ?thesis by simp
qed

subsection \<open>C4: what clean\_cache leaves\<close>

lemma del_keys_filter: "del_keys ks c = filter (\<lambda>kv. fst kv \<notin> set ks) c"
proof (induction ks arbitrary: c)
  case Nil
  then show ?case by (simp add: del_keys_def)
next
  case (Cons k ks)
  have "del_keys (k # ks) c = del_keys ks (AList.delete k c)"
    by (simp add: del_keys_def)
  also have "\<dots> = filter (\<lambda>kv. fst kv \<notin> set ks) (AList.delete k c)"
    by (rule Cons.IH)
  also have "AList.delete k c = filter (\<lambda>kv. fst kv \<noteq> k) c"
    by (induction c) auto
  finally show ?case by (auto intro: filter_cong)
qed

lemma del_keys_of_entries:
  assumes "distinct (map fst c)" "set es \<subseteq> set c"
  shows "del_keys (map fst es) c = filter (\<lambda>kv. kv \<notin> set es) c"
proof -
  have "fst kv \<notin> set (map fst es) \<longleftrightarrow> kv \<notin> set es" if "kv \<in> set c" for kv
  proof
    assume "fst kv \<notin> set (map fst es)"
    then show "kv \<notin> set es" by force
  next
    assume n: "kv \<notin> set es"
    show "fst kv \<notin> set (map fst es)"
    proof
      assume "fst kv \<in> set (map fst es)"
      then obtain e where e: "e \<in> set es" "fst e = fst kv" by auto
      with assms(2) have "e \<in> set c" by auto
      with assms(1) that e(2) have "e = kv"
        by (metis eq_key_imp_eq_value prod.collapse)
      with e(1) n show False by simp
    qed
  qed
  then show ?thesis
    unfolding del_keys_filter by (intro filter_cong) auto
qed

lemma expired_removed:
  assumes "distinct (map fst c)"
  shows "del_keys (map fst (filter (\<lambda>kv. t - timestamp (snd kv) > x) c)) c
           = filter (\<lambda>kv. t - timestamp (snd kv) \<le> x) c"
proof -
  have "del_keys (map fst (filter (\<lambda>kv. t - timestamp (snd kv) > x) c)) c
          = filter (\<lambda>kv. kv \<notin> set (filter (\<lambda>kv. t - timestamp (snd kv) > x) c)) c"
    using assms by (intro del_keys_of_entries) auto
  also have "\<dots> = filter (\<lambda>kv. t - timestamp (snd kv) \<le> x) c"
    by (intro filter_cong) auto
  finally show ?thesis .
qed

lemma evict_oldest:
  fixes c :: cache
  assumes d: "distinct (map fst c)" and big: "length c > m"
  defines "srt \<equiv> sort_key (\<lambda>x. timestamp (snd x)) c"
  defines "c' \<equiv> del_keys (map fst (take (length srt - m) srt)) c"
  shows "length c' = m"
    and "set c' = set (drop (length c - m) srt)"
    and "c' = filter (\<lambda>kv. kv \<notin> set (take (length c - m) srt)) c"
    and "\<forall>old \<in> set c - set c'. \<forall>kept \<in> set c'. timestamp (snd old) \<le> timestamp (snd kept)"
proof -
  let ?n = "length c - m"
  have len: "length srt = length c" and st: "set srt = set c"
    by (simp_all add: srt_def)
  have dc: "distinct c" using d by (simp add: distinct_map)
  have ds: "distinct srt" using dc by (simp add: srt_def)
  have sub: "set (take ?n srt) \<subseteq> set c" using st by (metis set_take_subset)
  show c'_eq: "c' = filter (\<lambda>kv. kv \<notin> set (take ?n srt)) c"
    unfolding c'_def len by (rule del_keys_of_entries[OF d sub])
  have split: "srt = take ?n srt @ drop ?n srt" by simp
  have disj: "set (take ?n srt) \<inter> set (drop ?n srt) = {}"
    using ds by (metis append_take_drop_id distinct_append)
  have un: "set (take ?n srt) \<union> set (drop ?n srt) = set c"
    using st by (metis append_take_drop_id set_append)
  show sc: "set c' = set (drop ?n srt)"
    unfolding c'_eq using disj un by auto
  have "distinct c'" unfolding c'_eq using dc by simp
  then have "length c' = card (set c')" by (simp add: distinct_card)
  also have "\<dots> = card (set (drop ?n srt))" by (simp add: sc)
  also have "\<dots> = length (drop ?n srt)" using ds by (simp add: distinct_card)
  also have "\<dots> = m" using big len by simp
  finally show "length c' = m" .
  have "sorted (map (\<lambda>x. timestamp (snd x)) srt)" by (simp add: srt_def)
  then have "sorted (map (\<lambda>x. timestamp (snd x)) (take ?n srt) @ map (\<lambda>x. timestamp (snd x)) (drop ?n srt))"
    by (metis append_take_drop_id map_append)
  then have ord: "\<forall>a \<in> set (take ?n srt). \<forall>b \<in> set (drop ?n srt).
                  timestamp (snd a) \<le> timestamp (snd b)"
    by (auto simp: sorted_append)
  have "set c - set c' = set (take ?n srt)" using sc disj un by auto
  with ord sc
  show "\<forall>old \<in> set c - set c'. \<forall>kept \<in> set c'. timestamp (snd old) \<le> timestamp (snd kept)"
    by simp
qed


lemma clean_cache_cache:
  assumes "distinct (map fst (intent_cache self))"
  shows "intent_cache (clean_cache rt self) =
     (let fresh = filter (\<lambda>kv. now rt self - timestamp (snd kv) \<le> cache_expiry)
                    (intent_cache self)
      in if length fresh > cache_max_size
         then del_keys (map fst (take (length (sort_key (\<lambda>x. timestamp (snd x)) fresh)
                                        - cache_max_size)
                                   (sort_key (\<lambda>x. timestamp (snd x)) fresh))) fresh
         else fresh)"
proof -
  have e: "del_keys (map fst (filter (\<lambda>kv. now rt self - timestamp (snd kv) > cache_expiry)
                                (intent_cache self))) (intent_cache self)
             = filter (\<lambda>kv. now rt self - timestamp (snd kv) \<le> cache_expiry) (intent_cache self)"
    by (rule expired_removed[OF assms])
  show ?thesis
    unfolding clean_cache_def Let_def e by (simp add: tick_def)
qed

lemma distinct_fst_filter: "distinct (map fst c) \<Longrightarrow> distinct (map fst (filter P c))"
  by (simp add: distinct_map_filter)

lemma clean_cache_distinct:
  assumes "distinct (map fst (intent_cache self))"
  shows "distinct (map fst (intent_cache (clean_cache rt self)))"
  using assms
  by (simp add: clean_cache_cache Let_def del_keys_filter distinct_fst_filter)

text \<open>
  C4. Let the cache be a dictionary (distinct keys), \<open>t\<close> the reading \<open>clean_cache\<close>
  takes and \<open>fresh\<close> the entries whose age \<open>t - timestamp\<close> is at most 600, in their
  order. After \<open>clean_cache\<close> no entry has an age above 600. If at most 100 entries are
  fresh, the cache is exactly \<open>fresh\<close>. If more than 100 are fresh, exactly 100 of them
  remain, in their order, and every evicted fresh entry has a time stamp no later than
  that of every entry kept. In all cases at most 100 entries remain.
\<close>

theorem clean_cache_expiry_and_size:
  assumes "distinct (map fst (intent_cache self))"
  shows "let t = now rt self;
             fresh = filter (\<lambda>kv. t - timestamp (snd kv) \<le> 600) (intent_cache self);
             c' = intent_cache (clean_cache rt self)
         in (\<forall>kv \<in> set c'. t - timestamp (snd kv) \<le> 600)
          \<and> (length fresh \<le> 100 \<longrightarrow> c' = fresh)
          \<and> (length fresh > 100 \<longrightarrow>
                length c' = 100
              \<and> c' = filter (\<lambda>kv. kv \<in> set c') fresh
              \<and> (\<forall>old \<in> set fresh - set c'. \<forall>kept \<in> set c'.
                    timestamp (snd old) \<le> timestamp (snd kept)))
          \<and> length c' \<le> 100"
proof -
  define t where "t = now rt self"
  define fresh where "fresh = filter (\<lambda>kv. t - timestamp (snd kv) \<le> 600) (intent_cache self)"
  define c' where "c' = intent_cache (clean_cache rt self)"
  define srt where "srt = sort_key (\<lambda>x. timestamp (snd x)) fresh"
  have df: "distinct (map fst fresh)"
    unfolding fresh_def using assms by (rule distinct_fst_filter)
  have c': "c' = (if length fresh > 100
                  then del_keys (map fst (take (length srt - 100) srt)) fresh else fresh)"
    unfolding c'_def srt_def fresh_def t_def
    by (simp add: clean_cache_cache[OF assms] Let_def cache_expiry_def cache_max_size_def)
  have small: "c' = fresh" if "length fresh \<le> 100"
    using that c' by simp
  have big: "length c' = 100 \<and> c' = filter (\<lambda>kv. kv \<in> set c') fresh
      \<and> (\<forall>old \<in> set fresh - set c'. \<forall>kept \<in> set c'.
            timestamp (snd old) \<le> timestamp (snd kept))"
    if b: "length fresh > 100"
  proof -
    from b c' have e: "c' = del_keys (map fst (take (length srt - 100) srt)) fresh" by simp
    note ev = evict_oldest[OF df b, folded srt_def, folded e]
    have "c' = filter (\<lambda>kv. kv \<notin> set (take (length fresh - 100) srt)) fresh" by (rule ev(3))
    then have sub: "set c' \<subseteq> set fresh" by auto
    have "set c' = set (filter (\<lambda>kv. kv \<notin> set (take (length fresh - 100) srt)) fresh)"
      using ev(3) by simp
    then have "filter (\<lambda>kv. kv \<in> set c') fresh
                 = filter (\<lambda>kv. kv \<notin> set (take (length fresh - 100) srt)) fresh"
      by (intro filter_cong) auto
    with ev(3) have "c' = filter (\<lambda>kv. kv \<in> set c') fresh" by simp
    with ev(1) ev(4) show ?thesis by blast
  qed
  have sub: "set c' \<subseteq> set fresh"
  proof (cases "length fresh > 100")
    case True
    with big have "c' = filter (\<lambda>kv. kv \<in> set c') fresh" by blast
    then show ?thesis by (metis filter_is_subset)
  next
    case False
    with small show ?thesis by simp
  qed
  have aged: "\<forall>kv \<in> set c'. t - timestamp (snd kv) \<le> 600"
    using sub by (auto simp: fresh_def)
  have len: "length c' \<le> 100"
    using small big by (cases "length fresh > 100") auto
  from aged small big len show ?thesis
    unfolding Let_def t_def[symmetric] fresh_def[symmetric] c'_def[symmetric] by blast
qed

theorem clean_cache_expiry_and_size_witness:
  "distinct (map fst (intent_cache (example_provider [] (example_cache 101))))
   \<and> length (intent_cache (example_provider [] (example_cache 101))) = 101
   \<and> length (intent_cache (clean_cache (example_runtime 100)
                (example_provider [] (example_cache 101)))) = 100"
proof -
  let ?self = "example_provider [] (example_cache 101)"
  let ?rt = "example_runtime 100"
  have c: "intent_cache ?self = example_cache 101"
    by (simp add: example_provider_def)
  have d: "distinct (map fst (intent_cache ?self))"
    unfolding c by (simp add: example_cache_def distinct_map comp_def inj_on_def)
  have l: "length (intent_cache ?self) = 101"
    unfolding c by (simp add: example_cache_def)
  have "filter (\<lambda>kv. now ?rt ?self - timestamp (snd kv) \<le> 600) (intent_cache ?self)
          = intent_cache ?self"
    unfolding c by (rule filter_True) (auto simp: example_cache_def now_def example_runtime_def)
  with l clean_cache_expiry_and_size[OF d, of ?rt]
  have "length (intent_cache (clean_cache ?rt ?self)) = 100"
    by (simp add: Let_def)
  with d l show ?thesis by simp
qed

subsection \<open>Facts about the path of a miss\<close>

lemma map_of_del_keys:
  "map_of (del_keys ks c) k = (if k \<in> set ks then None else map_of c k)"
  unfolding del_keys_filter by (induction c) auto

lemma clean_cache_no_expired:
  "\<forall>kv \<in> set (intent_cache (clean_cache rt self)).
      now rt self - timestamp (snd kv) \<le> cache_expiry"
proof -
  let ?exp = "map fst (filter (\<lambda>kv. now rt self - timestamp (snd kv) > cache_expiry)
                         (intent_cache self))"
  have 1: "\<forall>kv \<in> set (del_keys ?exp (intent_cache self)).
             now rt self - timestamp (snd kv) \<le> cache_expiry"
    unfolding del_keys_filter by force
  have 2: "set (del_keys ks (del_keys ?exp (intent_cache self)))
             \<subseteq> set (del_keys ?exp (intent_cache self))" for ks
    by (subst del_keys_filter) auto
  show ?thesis
    using 1 2 by (auto simp: clean_cache_def Let_def tick_def)
qed

lemma clean_cache_purges_key:
  assumes "map_of (intent_cache self) k = None
           \<or> (\<exists>e. map_of (intent_cache self) k = Some e
                  \<and> now rt self - timestamp e > cache_expiry)"
  shows "map_of (intent_cache (clean_cache rt self)) k = None"
proof -
  let ?exp = "map fst (filter (\<lambda>kv. now rt self - timestamp (snd kv) > cache_expiry)
                         (intent_cache self))"
  have "map_of (del_keys ?exp (intent_cache self)) k = None"
  proof (cases "map_of (intent_cache self) k")
    case None
    then show ?thesis by (simp add: map_of_del_keys)
  next
    case (Some e)
    with assms have "now rt self - timestamp e > cache_expiry" by auto
    moreover from Some have "(k, e) \<in> set (intent_cache self)" by (rule map_of_SomeD)
    ultimately have "k \<in> set ?exp" by force
    then show ?thesis by (simp add: map_of_del_keys)
  qed
  then have "map_of (del_keys ks (del_keys ?exp (intent_cache self))) k = None" for ks
    by (simp add: map_of_del_keys)
  with \<open>map_of (del_keys ?exp (intent_cache self)) k = None\<close> show ?thesis
    by (simp add: clean_cache_def Let_def tick_def)
qed

lemma miss_purged:
  assumes "cache_miss rt self k"
    and "time_time rt (Suc (clock_reads self)) \<le> time_time rt (Suc (Suc (clock_reads self)))"
  shows "map_of (intent_cache (clean_cache rt (after_lookup self k))) k = None"
proof (cases "map_of (intent_cache self) k")
  case None
  then show ?thesis
    by (intro clean_cache_purges_key) (simp add: after_lookup_def tick_fields)
next
  case (Some e)
  with assms(1) have "time_time rt (Suc (clock_reads self)) - timestamp e > cache_expiry"
    by (simp add: cache_miss_def)
  with assms(2) have "time_time rt (Suc (Suc (clock_reads self))) - timestamp e > cache_expiry"
    by linarith
  with Some show ?thesis
    by (intro clean_cache_purges_key) (simp add: after_lookup_def tick_fields now_def)
qed

lemma try_decode_cache:
  "intent_cache (snd (try_decode rt self k i loaded)) = intent_cache self
   \<or> fst (try_decode rt self k i loaded) = Inr i
      \<and> intent_cache (snd (try_decode rt self k i loaded))
          = AList.update k \<lparr>intent = i, timestamp = now rt self\<rparr> (intent_cache self)"
  by (auto simp: try_decode_def tick_fields store_intent_fields
      split: sum.splits bool.splits if_splits)

lemma detect_uncached_cache:
  "intent_cache (snd (detect_uncached rt self c client k text))
     = intent_cache (clean_cache rt self)
   \<or> (\<exists>i. fst (detect_uncached rt self c client k text) = Inr i
        \<and> intent_cache (snd (detect_uncached rt self c client k text))
            = AList.update k \<lparr>intent = i, timestamp = time_time rt (clock_reads self + 5)\<rparr>
                (intent_cache (clean_cache rt self)))"
proof -
  have n: "now rt (tick (tick (x\<lparr>llm_calls := l\<rparr>))) = time_time rt (clock_reads x + 2)" for x l
    by (simp add: now_def tick_def)
  show ?thesis
    unfolding detect_uncached_def Let_def
    apply (simp split: sum.splits add: tick_fields)
    apply (intro allI impI conjI)
    subgoal for sp response parsed
      using try_decode_cache[of rt
          "tick (tick (tick (tick (clean_cache rt self))\<lparr>llm_calls :=
              llm_calls (tick (tick (clean_cache rt self))) @ [(sp, text)]\<rparr>))"
          k "json_dumps (float_repr rt) parsed"
          "json_loads (json_dumps (float_repr rt) parsed)"]
      by (auto simp: tick_fields clean_cache_fields now_def tick_def eval_nat_numeral)
    done
qed


lemmas text_eval =
  ascii_Cons ascii_Nil re_search_group_def strip_def isspace_def group_or_empty_def

lemmas json_eval =
  json_loads_def skip_ws_def json_ws_def append_char_def BACKSLASH_def decode_uXXXX_def
  hexval_def match_number_def match_sign_def match_integer_def match_frac_def match_exp_def
  is_digit_def parse_int_def dict_def

lemma example_miss: "cache_miss rt (example_provider response []) k"
  by (simp add: cache_miss_def example_provider_def)

lemma example_after_lookup:
  "after_lookup (example_provider response []) k = tick (example_provider response [])"
  by (simp add: after_lookup_def example_provider_def)

lemma example_llm:
  "llm (example_provider response cch) = Some (\<lambda>system_prompt user_prompt. Inr response)"
  by (simp add: example_provider_def)

lemma clean_cache_empty: "intent_cache self = [] \<Longrightarrow> intent_cache (clean_cache rt self) = []"
  by (simp add: clean_cache_def Let_def tick_def del_keys_def cache_max_size_def)

subsection \<open>C8: malformed JSON in the tool call region\<close>

text \<open>
  C8. On a miss, when the prompt is built and the client answers, and the text of the
  \<^verbatim>\<open><tool_call>\<close> region of the stripped response, stripped, is refused by
  \<^verbatim>\<open>json.loads\<close>, then \<open>detect_intent\<close> raises \<^verbatim>\<open>JSONDecodeError\<close>: the failure
  of \<open>parse_text\<close> at line 135 is outside the \<^verbatim>\<open>try\<close> statement and is not turned
  into the fallback intent. The cache is the one the clean-up left, nothing is stored;
  when the clock does not run backwards between the readings of lines 89 and 25, the
  cache has no entry for the key of the text.
\<close>

theorem malformed_tool_call_propagates:
  assumes "llm self = Some client"
    and "cache_key_of text = Inr k"
    and "cache_miss rt self k"
    and "build_system_prompt rt c = Inr sp"
    and "client sp text = Inr response"
    and "re_search_group (ascii ''<tool_call>'') (ascii ''</tool_call>'') (strip response)
           = Some body"
    and "json_loads (strip body) = Inl JSONDecodeError"
  shows "fst (detect_intent rt self c dialogue_history text) = Inl JSONDecodeError
       \<and> intent_cache (snd (detect_intent rt self c dialogue_history text))
           = intent_cache (clean_cache rt (after_lookup self k))
       \<and> (time_time rt (Suc (clock_reads self)) \<le> time_time rt (Suc (Suc (clock_reads self)))
            \<longrightarrow> map_of (intent_cache (snd (detect_intent rt self c dialogue_history text))) k
                  = None)"
proof -
  have p: "parse_text (strip response) = Inl JSONDecodeError"
    using assms(6,7) by (simp add: parse_text_def Let_def group_or_empty_def)
  have d: "detect_intent rt self c dialogue_history text
             = detect_uncached rt (after_lookup self k) c client k text"
    using assms(1-3) by (rule detect_intent_miss)
  have u: "detect_uncached rt s c client k text
             = (Inl JSONDecodeError,
                tick (tick ((tick (tick (clean_cache rt s)))
                  \<lparr>llm_calls := llm_calls (tick (tick (clean_cache rt s))) @ [(sp, text)]\<rparr>)))"
    for s
    using assms(4,5) p by (simp add: detect_uncached_def Let_def)
  have c1: "intent_cache (snd (detect_intent rt self c dialogue_history text))
           = intent_cache (clean_cache rt (after_lookup self k))"
    by (simp add: d u tick_fields)
  from c1 miss_purged[OF assms(3)] show ?thesis
    by (simp add: d u)
qed

theorem malformed_tool_call_propagates_witness:
  "fst (detect_intent (example_runtime 0)
          (example_provider (ascii ''<tool_call>{oops</tool_call>'') []) example_conn []
          (ascii ''hi''))
     = Inl JSONDecodeError
   \<and> intent_cache (snd (detect_intent (example_runtime 0)
          (example_provider (ascii ''<tool_call>{oops</tool_call>'') []) example_conn []
          (ascii ''hi'')))
     = []"
proof -
  let ?r = "ascii ''<tool_call>{oops</tool_call>''"
  have s: "re_search_group (ascii ''<tool_call>'') (ascii ''</tool_call>'') (strip ?r)
             = Some (ascii ''{oops'')"
    by (simp add: text_eval)
  have j: "json_loads (strip (ascii ''{oops'')) = Inl JSONDecodeError"
    by (simp add: text_eval json_eval)
  have l: "(\<lambda>system_prompt user_prompt. Inr ?r) (system_prompt_of (ascii ''[]'')) (ascii ''hi'')
             = (Inr ?r :: exn + str)"
    by simp
  from malformed_tool_call_propagates [OF example_llm cache_key_of_hi example_miss
      example_prompt [of 0] l s j, where dialogue_history = "[]"]
  have t: "fst (detect_intent (example_runtime 0) (example_provider ?r []) example_conn []
                 (ascii ''hi'')) = Inl JSONDecodeError"
    and c: "intent_cache (snd (detect_intent (example_runtime 0) (example_provider ?r [])
                 example_conn [] (ascii ''hi'')))
            = intent_cache (clean_cache (example_runtime 0)
                (after_lookup (example_provider ?r []) (hexdigest (md5_digest [104, 105]))))"
    by blast+
  have e: "intent_cache (clean_cache (example_runtime 0)
              (after_lookup (example_provider ?r []) k)) = []" for k
    by (rule clean_cache_empty)
       (simp add: example_after_lookup tick_fields, simp add: example_provider_def)
  from t c e show ?thesis by simp
qed

subsection \<open>C3: the handler of the final decoding\<close>

lemmas dumps_eval =
  encode_basestring_def escape_char_def int_repr_def hex_digit_def

text \<open>
  Where the \<^verbatim>\<open>try\<close> statement is entered: on a miss, once the prompt is built, the
  client has answered and \<open>parse_text\<close> has returned, the call is the \<^verbatim>\<open>try\<close>
  statement on the outcome of \<^verbatim>\<open>json.loads\<close> of the serialised dictionary, in a
  provider whose cache is the one the clean-up of line 97 left.
\<close>

lemma detect_uncached_enters_try:
  assumes "build_system_prompt rt c = Inr sp"
    and "client sp text = Inr response"
    and "parse_text (strip response) = Inr parsed"
  shows "\<exists>s4. intent_cache s4 = intent_cache (clean_cache rt self)
            \<and> llm_calls s4 = llm_calls self @ [(sp, text)]
            \<and> detect_uncached rt self c client k text
                = try_decode rt s4 k (json_dumps (float_repr rt) parsed)
                    (json_loads (json_dumps (float_repr rt) parsed))"
proof -
  let ?s4 = "tick (tick ((tick (tick (clean_cache rt self)))
               \<lparr>llm_calls := llm_calls (tick (tick (clean_cache rt self))) @ [(sp, text)]\<rparr>))"
  have "detect_uncached rt self c client k text
          = try_decode rt ?s4 k (json_dumps (float_repr rt) parsed)
              (json_loads (json_dumps (float_repr rt) parsed))"
    using assms by (simp add: detect_uncached_def Let_def)
  moreover have "intent_cache ?s4 = intent_cache (clean_cache rt self)"
    by (simp add: tick_fields)
  moreover have "llm_calls ?s4 = llm_calls self @ [(sp, text)]"
    by (simp add: tick_fields clean_cache_fields)
  ultimately show ?thesis by blast
qed



subsection \<open>C5: expired entries after a call\<close>

lemma set_update_subset: "set (AList.update k v c) \<subseteq> insert (k, v) (set c)"
  by (induction c) auto

lemma md5_key_length: "length (hexdigest (md5_digest m)) = 32"
proof -
  have 1: "length (hexdigest bs) = 2 * length bs" for bs
    by (induction bs) (simp_all add: hexdigest_def)
  have 2: "length (md5_digest m) = 16"
    by (simp add: md5_digest_def Let_def le_bytes_def split: prod.splits)
  show ?thesis by (simp add: 1 2)
qed

text \<open>
  C5 as stated fails: a call that hits the cache returns at line 94, before the clean-up
  of line 97. With the clock at 1200, a fresh entry for the text and an entry stamped 0
  under another key, the call returns the cached intent and the entry of age 1200 is
  still in the cache.
\<close>

theorem stale_entries_survive_a_hit:
  "fst (detect_intent (example_runtime 1200)
          (example_provider []
             [(hexdigest (md5_digest [104, 105]), \<lparr>intent = ascii ''x'', timestamp = 1000\<rparr>),
              ([0], \<lparr>intent = [], timestamp = 0\<rparr>)])
          example_conn [] (ascii ''hi''))
     = Inr (ascii ''x'')
   \<and> map_of (intent_cache (snd (detect_intent (example_runtime 1200)
          (example_provider []
             [(hexdigest (md5_digest [104, 105]), \<lparr>intent = ascii ''x'', timestamp = 1000\<rparr>),
              ([0], \<lparr>intent = [], timestamp = 0\<rparr>)])
          example_conn [] (ascii ''hi'')))) [0]
     = Some \<lparr>intent = [], timestamp = 0\<rparr>
   \<and> now (example_runtime 1200) (snd (detect_intent (example_runtime 1200)
          (example_provider []
             [(hexdigest (md5_digest [104, 105]), \<lparr>intent = ascii ''x'', timestamp = 1000\<rparr>),
              ([0], \<lparr>intent = [], timestamp = 0\<rparr>)])
          example_conn [] (ascii ''hi'')))
       - timestamp \<lparr>intent = [], timestamp = 0\<rparr> > 600"
proof -
  have ne: "hexdigest (md5_digest [104, 105]) \<noteq> [0]"
    using md5_key_length[of "[104, 105]"] by auto
  show ?thesis
    using ne
    by (simp add: detect_intent_def example_provider_def cache_key_of_hi Let_def tick_def
        now_def example_runtime_def cache_expiry_def)
qed

text \<open>
  C5, amended. After a call of \<open>detect_intent\<close> that finds no usable entry for its text
  (a miss), whatever its outcome, and with a clock that does not run backwards, no entry
  of the cache is older than 600 seconds at the reading the clean-up of that call took.
\<close>

theorem miss_leaves_no_expired_entry:
  assumes "llm self = Some client"
    and "cache_key_of text = Inr k"
    and "cache_miss rt self k"
    and "\<forall>i j. i \<le> j \<longrightarrow> time_time rt i \<le> time_time rt j"
  shows "\<forall>kv \<in> set (intent_cache (snd (detect_intent rt self c dialogue_history text))).
           now rt (after_lookup self k) - timestamp (snd kv) \<le> 600"
proof -
  let ?s = "after_lookup self k"
  have d: "detect_intent rt self c dialogue_history text
             = detect_uncached rt ?s c client k text"
    using assms(1-3) by (rule detect_intent_miss)
  have cl: "\<forall>kv \<in> set (intent_cache (clean_cache rt ?s)).
              now rt ?s - timestamp (snd kv) \<le> 600"
    using clean_cache_no_expired[of rt "?s"] by (simp add: cache_expiry_def)
  from assms(4) have le: "now rt ?s \<le> time_time rt (clock_reads ?s + 5)"
    by (simp add: now_def)
  consider
    (same) "intent_cache (snd (detect_uncached rt ?s c client k text))
              = intent_cache (clean_cache rt ?s)"
  | (stored) i where "intent_cache (snd (detect_uncached rt ?s c client k text))
            = AList.update k \<lparr>intent = i, timestamp = time_time rt (clock_reads ?s + 5)\<rparr>
                (intent_cache (clean_cache rt ?s))"
    using detect_uncached_cache[of rt "?s" c client k "text"] by blast
  then show ?thesis
  proof cases
    case same
    with cl show ?thesis by (simp add: d)
  next
    case stored
    show ?thesis
    proof
      fix kv
      assume "kv \<in> set (intent_cache (snd (detect_intent rt self c dialogue_history text)))"
      with stored d set_update_subset
      have "kv = (k, \<lparr>intent = i, timestamp = time_time rt (clock_reads ?s + 5)\<rparr>)
            \<or> kv \<in> set (intent_cache (clean_cache rt ?s))"
        by fastforce
      with cl le show "now rt ?s - timestamp (snd kv) \<le> 600"
        by auto
    qed
  qed
qed

theorem miss_leaves_no_expired_entry_witness:
  "list_all
     (\<lambda>kv. now (example_runtime 1200)
             (after_lookup
                (example_provider (ascii ''<tool_call>[]</tool_call>'') (example_cache 1))
                (hexdigest (md5_digest [104, 105])))
             - timestamp (snd kv) \<le> 600)
     (intent_cache (snd (detect_intent (example_runtime 1200)
          (example_provider (ascii ''<tool_call>[]</tool_call>'') (example_cache 1))
          example_conn [] (ascii ''hi''))))"
proof -
  let ?p = "example_provider (ascii ''<tool_call>[]</tool_call>'') (example_cache 1)"
  have ne: "hexdigest (md5_digest [104, 105]) \<noteq> [0]"
    using md5_key_length[of "[104, 105]"] by auto
  have m: "cache_miss (example_runtime 1200) ?p (hexdigest (md5_digest [104, 105]))"
    using ne by (simp add: cache_miss_def example_provider_def example_cache_def)
  have mono: "\<forall>i j. i \<le> j \<longrightarrow> time_time (example_runtime 1200) i \<le> time_time (example_runtime 1200) j"
    by (simp add: example_runtime_def)
  show ?thesis
    unfolding list_all_iff
    by (rule miss_leaves_no_expired_entry [OF example_llm cache_key_of_hi m mono])
qed

subsection \<open>C6: storing the result of a miss\<close>

text \<open>
  Whenever a call on a miss returns a string other than the fallback literal, that
  string is stored under the key of the text with the reading taken at line 153 or 166,
  over the cache the clean-up left, in both branches.
\<close>

lemma try_decode_returned:
  assumes "try_decode rt self k i loaded = (Inr r, self')" and "r \<noteq> fallback_intent"
  shows "r = i \<and> intent_cache self'
           = AList.update k \<lparr>intent = i, timestamp = now rt self\<rparr> (intent_cache self)"
  using assms
  by (auto simp: try_decode_def tick_fields store_intent_fields
      split: sum.splits bool.splits if_splits)

lemma returned_intent_is_stored:
  assumes "llm self = Some client"
    and "cache_key_of text = Inr k"
    and "cache_miss rt self k"
    and "detect_intent rt self c dialogue_history text = (Inr r, self')"
    and "r \<noteq> fallback_intent"
  shows "intent_cache self'
           = AList.update k
               \<lparr>intent = r, timestamp = time_time rt (clock_reads (after_lookup self k) + 5)\<rparr>
               (intent_cache (clean_cache rt (after_lookup self k)))"
proof -
  let ?s = "after_lookup self k"
  have d: "detect_uncached rt ?s c client k text = (Inr r, self')"
    using detect_intent_miss[OF assms(1-3), of c dialogue_history] assms(4) by simp
  then obtain s4 i loaded where t: "try_decode rt s4 k i loaded = (Inr r, self')"
    and c4: "intent_cache s4 = intent_cache (clean_cache rt ?s)"
    and n4: "now rt s4 = time_time rt (clock_reads ?s + 5)"
    by (auto simp: detect_uncached_def Let_def tick_fields clean_cache_fields now_def tick_def
        eval_nat_numeral split: sum.splits)
  from try_decode_returned[OF t assms(5)] c4 n4 show ?thesis by simp
qed

text \<open>
  Every call leaves the cache a dictionary: the hypothesis of C4 holds in every state
  reached from the empty cache of \<^verbatim>\<open>__init__\<close>.
\<close>

lemma detect_intent_keeps_dict:
  assumes "distinct (map fst (intent_cache self))"
  shows "distinct (map fst (intent_cache (snd (detect_intent rt self c dialogue_history text))))"
proof -
  have u: "distinct (map fst (intent_cache (snd (detect_uncached rt s c client k text))))"
    if "distinct (map fst (intent_cache s))" for s client k
    using detect_uncached_cache[of rt s c client k "text"] clean_cache_distinct[OF that, of rt]
    by (auto simp: distinct_update)
  show ?thesis
    using assms
    by (auto simp: detect_intent_def Let_def tick_fields u split: option.splits sum.splits)
qed

text \<open>
  A call that stores a function call: the response names the function \<^verbatim>\<open>play\<close>, the
  clock shows 7, the cache is empty. The intent string is returned and stored under the
  key of the text with the time stamp 7; eight clock readings were taken and the client
  was called once.
\<close>

lemmas scan_eval = scan_once.simps JSONArray.simps JSONObject.simps digits.simps

lemma function_call_is_stored_example:
  \<open>detect_intent (example_runtime 7)
     (example_provider
        (ascii ''<tool_call>[{"name":"play","arguments":{"song":"x"}}]</tool_call>'') [])
     example_conn [] (ascii ''hi'')
   = (Inr (ascii ''{"tags": "", "function_call": {"name": "play", "arguments": {"song": "x"}}, "content": ""}''),
      \<lparr>llm = Some (\<lambda>system_prompt user_prompt.
               Inr (ascii ''<tool_call>[{"name":"play","arguments":{"song":"x"}}]</tool_call>'')),
       intent_cache =
         [(hexdigest (md5_digest [104, 105]),
           \<lparr>intent = ascii ''{"tags": "", "function_call": {"name": "play", "arguments": {"song": "x"}}, "content": ""}'',
            timestamp = 7\<rparr>)],
       clock_reads = 8,
       llm_calls = [(system_prompt_of (ascii ''[]''), ascii ''hi'')]\<rparr>)\<close>
proof -
  let ?r = \<open>ascii ''<tool_call>[{"name":"play","arguments":{"song":"x"}}]</tool_call>''\<close>
  let ?i = \<open>ascii ''{"tags": "", "function_call": {"name": "play", "arguments": {"song": "x"}}, "content": ""}''\<close>
  let ?parsed = "JObj [(ascii ''tags'', JStr []),
                    (ascii ''function_call'',
                       JObj [(ascii ''name'', JStr (ascii ''play'')),
                             (ascii ''arguments'', JObj [(ascii ''song'', JStr (ascii ''x''))])]),
                    (ascii ''content'', JStr [])]"
  let ?p = "example_provider ?r []"
  let ?k = "hexdigest (md5_digest [104, 105])"
  have p: "parse_text (strip ?r) = Inr ?parsed"
    by (simp add: parse_text_def Let_def text_eval json_eval scan_eval py_len_def py_getitem0_def)
  have j: "json_dumps (float_repr (example_runtime 7)) ?parsed = ?i"
    by (simp add: dumps_eval ascii_Cons ascii_Nil)
  have l: "json_loads ?i = Inr ?parsed"
    by (simp add: text_eval json_eval scan_eval)
  have d: "detect_intent (example_runtime 7) ?p example_conn [] (ascii ''hi'')
             = detect_uncached (example_runtime 7) (after_lookup ?p ?k)
                 example_conn (\<lambda>system_prompt user_prompt. Inr ?r) ?k (ascii ''hi'')"
    by (rule detect_intent_miss [OF example_llm cache_key_of_hi example_miss])
  have t: "try_decode rt s k ?i (Inr ?parsed) = (Inr ?i, tick (store_intent rt k ?i s))" for rt s k
    by (simp add: try_decode_def py_contains_def py_getitem_def has_get_def ascii_Cons ascii_Nil)
  have u: "detect_uncached (example_runtime 7) s example_conn
             (\<lambda>system_prompt user_prompt. Inr ?r) k (ascii ''hi'')
           = (Inr ?i,
              tick (store_intent (example_runtime 7) k ?i
                (tick (tick ((tick (tick (clean_cache (example_runtime 7) s)))
                  \<lparr>llm_calls := llm_calls (tick (tick (clean_cache (example_runtime 7) s)))
                       @ [(system_prompt_of (ascii ''[]''), ascii ''hi'')]\<rparr>)))))" for s k
    unfolding detect_uncached_def Let_def example_prompt
    by (simp only: p j l t sum.case)
  have c: "clean_cache (example_runtime 7) (after_lookup ?p ?k)
             = ?p\<lparr>clock_reads := 2\<rparr>"
    by (simp add: example_after_lookup, simp add: example_provider_def clean_cache_def Let_def
        tick_def del_keys_def cache_max_size_def)
  show ?thesis
    unfolding d u c
    by (simp add: store_intent_def tick_def now_def example_provider_def example_runtime_def)
qed

text \<open>
  C6 at the response \<^verbatim>\<open><tool_call>[1]</tool_call>\<close>: \<open>parse_text\<close> succeeds with the
  function call \<open>1\<close>, the final \<^verbatim>\<open>json.loads\<close> succeeds, and line 142 calls
  \<^verbatim>\<open>get\<close> on an integer: the call raises \<^verbatim>\<open>AttributeError\<close>, which the handler
  does not catch, before the assignment of line 151. Nothing is stored.
\<close>

theorem non_object_function_call_is_not_stored:
  "parse_text (strip (ascii ''<tool_call>[1]</tool_call>''))
     = Inr (JObj [(ascii ''tags'', JStr []), (ascii ''function_call'', JInt 1),
                  (ascii ''content'', JStr [])])
   \<and> json_loads (json_dumps (float_repr (example_runtime 0))
         (JObj [(ascii ''tags'', JStr []), (ascii ''function_call'', JInt 1),
                (ascii ''content'', JStr [])]))
     = Inr (JObj [(ascii ''tags'', JStr []), (ascii ''function_call'', JInt 1),
                  (ascii ''content'', JStr [])])
   \<and> fst (detect_intent (example_runtime 0)
          (example_provider (ascii ''<tool_call>[1]</tool_call>'') []) example_conn []
          (ascii ''hi''))
     = Inl AttributeError
   \<and> intent_cache (snd (detect_intent (example_runtime 0)
          (example_provider (ascii ''<tool_call>[1]</tool_call>'') []) example_conn []
          (ascii ''hi'')))
     = []"
proof -
  let ?r = "ascii ''<tool_call>[1]</tool_call>''"
  let ?parsed = "JObj [(ascii ''tags'', JStr []), (ascii ''function_call'', JInt 1),
                       (ascii ''content'', JStr [])]"
  let ?p = "example_provider ?r []"
  have p: "parse_text (strip ?r) = Inr ?parsed"
    by (simp add: parse_text_def Let_def text_eval json_eval py_len_def py_getitem0_def)
  have j: "json_loads (json_dumps (float_repr (example_runtime 0)) ?parsed) = Inr ?parsed"
    by (simp add: example_runtime_def dumps_eval text_eval json_eval)
  have d: "detect_intent (example_runtime 0) ?p example_conn [] (ascii ''hi'')
             = detect_uncached (example_runtime 0) (after_lookup ?p (hexdigest (md5_digest [104, 105])))
                 example_conn (\<lambda>system_prompt user_prompt. Inr ?r)
                 (hexdigest (md5_digest [104, 105])) (ascii ''hi'')"
    by (rule detect_intent_miss [OF example_llm cache_key_of_hi example_miss])
  have t: "try_decode rt s k i (Inr ?parsed) = (Inl AttributeError, s)" for rt s k i
    by (simp add: try_decode_def py_contains_def py_getitem_def has_get_def ascii_Cons ascii_Nil)
  have u: "detect_uncached (example_runtime 0) s example_conn
             (\<lambda>system_prompt user_prompt. Inr ?r) k (ascii ''hi'')
           = (Inl AttributeError,
              tick (tick ((tick (tick (clean_cache (example_runtime 0) s)))
                \<lparr>llm_calls := llm_calls (tick (tick (clean_cache (example_runtime 0) s)))
                     @ [(system_prompt_of (ascii ''[]''), ascii ''hi'')]\<rparr>)))" for s k
    unfolding detect_uncached_def Let_def example_prompt
    by (simp add: p j t del: json_dumps.simps)
  have e: "intent_cache (clean_cache (example_runtime 0) (after_lookup ?p k)) = []" for k
    by (rule clean_cache_empty)
       (simp add: example_after_lookup tick_fields, simp add: example_provider_def)
  from p j show ?thesis
    by (simp add: d u tick_fields e)
qed

subsection \<open>C10: no tool call region\<close>

lemma strip_all_space:
  assumes "\<forall>ch \<in> set s. isspace ch"
  shows "strip s = []"
proof -
  from assms have "\<forall>ch \<in> set (dropWhile isspace s). isspace ch"
    by (auto dest: set_dropWhileD)
  then show ?thesis by (simp add: strip_def)
qed

lemma json_loads_empty: "json_loads [] = Inl JSONDecodeError"
  by (simp add: json_loads_def skip_ws_def)

text \<open>
  C10. If the text has no \<^verbatim>\<open><tool_call>...</tool_call>\<close> region, or the region
  consists of white space only (it may be empty), \<open>parse_text\<close> raises
  \<^verbatim>\<open>JSONDecodeError\<close>: \<^verbatim>\<open>json.loads\<close> is applied to the empty string. Hence
  whenever \<open>parse_text\<close> returns a dictionary, the text has a region with a character
  that is not white space.
\<close>

theorem parse_text_without_tool_call:
  "((re_search_group (ascii ''<tool_call>'') (ascii ''</tool_call>'') text = None
      \<or> (\<exists>body. re_search_group (ascii ''<tool_call>'') (ascii ''</tool_call>'') text = Some body
             \<and> (\<forall>ch \<in> set body. isspace ch)))
     \<longrightarrow> parse_text text = Inl JSONDecodeError)
   \<and> (\<forall>d. parse_text text = Inr d \<longrightarrow>
         (\<exists>body. re_search_group (ascii ''<tool_call>'') (ascii ''</tool_call>'') text = Some body
            \<and> \<not> (\<forall>ch \<in> set body. isspace ch)))"
proof -
  have 1: "parse_text text = Inl JSONDecodeError"
    if "re_search_group (ascii ''<tool_call>'') (ascii ''</tool_call>'') text = None
      \<or> (\<exists>body. re_search_group (ascii ''<tool_call>'') (ascii ''</tool_call>'') text = Some body
             \<and> (\<forall>ch \<in> set body. isspace ch))"
  proof -
    from that
    have "group_or_empty (re_search_group (ascii ''<tool_call>'') (ascii ''</tool_call>'') text) = []"
      by (auto simp: group_or_empty_def strip_all_space)
    then show ?thesis
      by (simp add: parse_text_def Let_def json_loads_empty)
  qed
  have 2: "\<exists>body. re_search_group (ascii ''<tool_call>'') (ascii ''</tool_call>'') text = Some body
            \<and> \<not> (\<forall>ch \<in> set body. isspace ch)" if "parse_text text = Inr d" for d
  proof (rule ccontr)
    assume "\<nexists>body. re_search_group (ascii ''<tool_call>'') (ascii ''</tool_call>'') text = Some body
            \<and> \<not> (\<forall>ch \<in> set body. isspace ch)"
    then have "re_search_group (ascii ''<tool_call>'') (ascii ''</tool_call>'') text = None
      \<or> (\<exists>body. re_search_group (ascii ''<tool_call>'') (ascii ''</tool_call>'') text = Some body
             \<and> (\<forall>ch \<in> set body. isspace ch))"
      by (cases "re_search_group (ascii ''<tool_call>'') (ascii ''</tool_call>'') text") auto
    from 1[OF this] that show False by simp
  qed
  from 1 2 show ?thesis by blast
qed

theorem parse_text_without_tool_call_witness:
  "parse_text (ascii ''<tags>music</tags><content>hi</content>'') = Inl JSONDecodeError
   \<and> parse_text (ascii ''<tool_call> </tool_call>'') = Inl JSONDecodeError"
proof -
  have a: "re_search_group (ascii ''<tool_call>'') (ascii ''</tool_call>'')
             (ascii ''<tags>music</tags><content>hi</content>'') = None"
    by (simp add: text_eval)
  have b: "re_search_group (ascii ''<tool_call>'') (ascii ''</tool_call>'')
             (ascii ''<tool_call> </tool_call>'') = Some (ascii '' '')"
    by (simp add: text_eval)
  have c: "\<forall>ch \<in> set (ascii '' ''). isspace ch"
    by (simp add: text_eval)
  from parse_text_without_tool_call [of "ascii ''<tags>music</tags><content>hi</content>''"] a
  have 1: "parse_text (ascii ''<tags>music</tags><content>hi</content>'') = Inl JSONDecodeError"
    by blast
  from parse_text_without_tool_call [of "ascii ''<tool_call> </tool_call>''"] b c
  have 2: "parse_text (ascii ''<tool_call> </tool_call>'') = Inl JSONDecodeError"
    by blast
  from 1 2 show ?thesis by simp
qed

subsection \<open>C2: the tool call region holds a JSON array\<close>

text \<open>
  C2. When the stripped text of the \<^verbatim>\<open><tool_call>\<close> region decodes to an array,
  \<open>parse_text\<close> returns the dictionary with the keys \<^verbatim>\<open>tags\<close> and \<^verbatim>\<open>content\<close>
  only if the array is empty, and otherwise the dictionary whose \<^verbatim>\<open>function_call\<close> is
  the first element of the array. The two texts of the specification give the two
  dictionaries it names.
\<close>

theorem parse_text_tool_call_array:
  \<open>(\<forall>text body xs.
      re_search_group (ascii ''<tool_call>'') (ascii ''</tool_call>'') text = Some body
      \<and> json_loads (strip body) = Inr (JArr xs)
      \<longrightarrow> parse_text text =
            Inr (JObj
              (case xs of
                 [] \<Rightarrow>
                   [(ascii ''tags'',
                       JStr (group_or_empty (re_search_group (ascii ''<tags>'') (ascii ''</tags>'') text))),
                    (ascii ''content'',
                       JStr (group_or_empty (re_search_group (ascii ''<content>'') (ascii ''</content>'') text)))]
               | x # rest \<Rightarrow>
                   [(ascii ''tags'',
                       JStr (group_or_empty (re_search_group (ascii ''<tags>'') (ascii ''</tags>'') text))),
                    (ascii ''function_call'', x),
                    (ascii ''content'',
                       JStr (group_or_empty (re_search_group (ascii ''<content>'') (ascii ''</content>'') text)))])))
   \<and> parse_text (ascii ''<tags>music</tags><tool_call>[]</tool_call><content>hi</content>'')
       = Inr (JObj [(ascii ''tags'', JStr (ascii ''music'')), (ascii ''content'', JStr (ascii ''hi''))])
   \<and> parse_text (ascii ''<tool_call>[{"name":"play","arguments":{"song":"x"}}]</tool_call>'')
       = Inr (JObj [(ascii ''tags'', JStr []),
                    (ascii ''function_call'',
                       JObj [(ascii ''name'', JStr (ascii ''play'')),
                             (ascii ''arguments'', JObj [(ascii ''song'', JStr (ascii ''x''))])]),
                    (ascii ''content'', JStr [])])\<close>
proof (intro conjI allI impI)
  fix t body xs
  assume "re_search_group (ascii ''<tool_call>'') (ascii ''</tool_call>'') t = Some body
      \<and> json_loads (strip body) = Inr (JArr xs)"
  then show "parse_text t =
            Inr (JObj
              (case xs of
                 [] \<Rightarrow>
                   [(ascii ''tags'',
                       JStr (group_or_empty (re_search_group (ascii ''<tags>'') (ascii ''</tags>'') t))),
                    (ascii ''content'',
                       JStr (group_or_empty (re_search_group (ascii ''<content>'') (ascii ''</content>'') t)))]
               | x # rest \<Rightarrow>
                   [(ascii ''tags'',
                       JStr (group_or_empty (re_search_group (ascii ''<tags>'') (ascii ''</tags>'') t))),
                    (ascii ''function_call'', x),
                    (ascii ''content'',
                       JStr (group_or_empty (re_search_group (ascii ''<content>'') (ascii ''</content>'') t)))]))"
    by (cases xs) (simp_all add: parse_text_def Let_def group_or_empty_def py_len_def py_getitem0_def)
next
  show "parse_text (ascii ''<tags>music</tags><tool_call>[]</tool_call><content>hi</content>'')
       = Inr (JObj [(ascii ''tags'', JStr (ascii ''music'')), (ascii ''content'', JStr (ascii ''hi''))])"
    by (simp add: parse_text_def Let_def text_eval json_eval py_len_def py_getitem0_def)
next
  show \<open>parse_text (ascii ''<tool_call>[{"name":"play","arguments":{"song":"x"}}]</tool_call>'')
       = Inr (JObj [(ascii ''tags'', JStr []),
                    (ascii ''function_call'',
                       JObj [(ascii ''name'', JStr (ascii ''play'')),
                             (ascii ''arguments'', JObj [(ascii ''song'', JStr (ascii ''x''))])]),
                    (ascii ''content'', JStr [])])\<close>
    by (simp add: parse_text_def Let_def text_eval json_eval py_len_def py_getitem0_def)
qed


theorem parse_text_tool_call_array_witness:
  "parse_text (ascii ''<tags> a </tags><tool_call>[7, 8]</tool_call>'')
     = Inr (JObj [(ascii ''tags'', JStr (ascii ''a'')), (ascii ''function_call'', JInt 7),
                  (ascii ''content'', JStr [])])"
proof -
  let ?t = "ascii ''<tags> a </tags><tool_call>[7, 8]</tool_call>''"
  have a: "re_search_group (ascii ''<tool_call>'') (ascii ''</tool_call>'') ?t
             = Some (ascii ''[7, 8]'')"
    by (simp add: text_eval)
  have b: "json_loads (strip (ascii ''[7, 8]'')) = Inr (JArr [JInt 7, JInt 8])"
    by (simp add: text_eval json_eval)
  have c: "group_or_empty (re_search_group (ascii ''<tags>'') (ascii ''</tags>'') ?t) = ascii ''a''"
    by (simp add: text_eval)
  have d: "group_or_empty (re_search_group (ascii ''<content>'') (ascii ''</content>'') ?t) = []"
    by (simp add: text_eval)
  from parse_text_tool_call_array a b
  have "parse_text ?t =
          Inr (JObj
            (case [JInt 7, JInt 8] of
               [] \<Rightarrow>
                 [(ascii ''tags'',
                     JStr (group_or_empty (re_search_group (ascii ''<tags>'') (ascii ''</tags>'') ?t))),
                  (ascii ''content'',
                     JStr (group_or_empty (re_search_group (ascii ''<content>'') (ascii ''</content>'') ?t)))]
             | x # rest \<Rightarrow>
                 [(ascii ''tags'',
                     JStr (group_or_empty (re_search_group (ascii ''<tags>'') (ascii ''</tags>'') ?t))),
                  (ascii ''function_call'', x),
                  (ascii ''content'',
                     JStr (group_or_empty (re_search_group (ascii ''<content>'') (ascii ''</content>'') ?t)))]))"
    by blast
  then show ?thesis
    unfolding c d by simp
qed

subsection \<open>C9: json.loads accepts what json.dumps writes\<close>

text \<open>
  From here on the equations of the scanner and of \<open>digits\<close> are applied by hand.
\<close>

declare scan_once.simps [simp del] JSONArray.simps [simp del] JSONObject.simps [simp del]
declare digits.simps [simp del]

lemma hexval_hex_digit: "d < 16 \<Longrightarrow> hexval (hex_digit d) = Some d"
  by (auto simp: hexval_def hex_digit_def)

lemma decode_control: "c < 32 \<Longrightarrow>
    decode_uXXXX (48 # 48 # hex_digit (c div 16) # hex_digit (c mod 16) # follow) = Some c"
proof -
  assume c: "c < 32"
  then have a: "c div 16 < 16" and b: "c mod 16 < 16" by auto
  have z: "hexval 48 = Some 0" by (simp add: hexval_def)
  show ?thesis
    by (simp add: decode_uXXXX_def z hexval_hex_digit[OF a] hexval_hex_digit[OF b])
qed

lemma scanstring_escape_char:
  "scanstring (escape_char c @ follow) = append_char c (scanstring follow)"
proof -
  consider "c = 92" | "c = 34" | "c = 8" | "c = 12" | "c = 10" | "c = 13" | "c = 9"
    | "c < 32" "c \<noteq> 8" "c \<noteq> 12" "c \<noteq> 10" "c \<noteq> 13" "c \<noteq> 9"
    | "\<not> c < 32" "c \<noteq> 92" "c \<noteq> 34"
    by linarith
  then show ?thesis
  proof cases
    case 8
    then have e: "escape_char c = [92, 117, 48, 48, hex_digit (c div 16), hex_digit (c mod 16)]"
      by (simp add: escape_char_def)
    show ?thesis
      unfolding e using 8(1) by (simp add: decode_control)
  next
    case 9
    then have e: "escape_char c = [c]"
      by (simp add: escape_char_def)
    show ?thesis
      unfolding e using 9 by simp
  qed (simp_all add: escape_char_def BACKSLASH_def)
qed

lemma scanstring_encoded:
  "scanstring (concat (map escape_char s) @ 34 # rest) = Inr (s, rest)"
  by (induction s) (simp_all add: scanstring_escape_char append_char_def)

lemma digits_nonempty: "digits n \<noteq> []"
  by (subst digits.simps) simp

lemma digits_all: "\<forall>d \<in> set (digits n). is_digit d"
proof (induction n rule: digits.induct)
  case (1 n)
  show ?case
  proof (cases "n < 10")
    case True
    then show ?thesis by (subst digits.simps) (simp add: is_digit_def)
  next
    case False
    have "n mod 10 < 10" by simp
    then have "is_digit (48 + n mod 10)" unfolding is_digit_def by linarith
    with False 1 show ?thesis by (subst digits.simps) auto
  qed
qed

lemma digits_hd: "0 < n \<Longrightarrow> hd (digits n) \<noteq> 48"
proof (induction n rule: digits.induct)
  case (1 n)
  show ?case
  proof (cases "n < 10")
    case True
    with 1(2) show ?thesis by (subst digits.simps) simp
  next
    case False
    then have "0 < n div 10" by simp
    with False 1 have "hd (digits (n div 10)) \<noteq> 48" by simp
    with False show ?thesis by (subst digits.simps) (simp add: digits_nonempty)
  qed
qed

lemma digits_zero: "digits 0 = [48]"
  by (subst digits.simps) simp

lemma while_digit_end:
  assumes "value_end rest" "\<forall>d \<in> set ds. is_digit d"
  shows "takeWhile is_digit (ds @ rest) = ds" "dropWhile is_digit (ds @ rest) = rest"
proof -
  have r: "takeWhile is_digit rest = []" "dropWhile is_digit rest = rest"
    using assms(1) by (cases rest; auto simp: value_end_def is_digit_def)+
  show "takeWhile is_digit (ds @ rest) = ds" using assms(2) r by (simp add: takeWhile_append2)
  show "dropWhile is_digit (ds @ rest) = rest" using assms(2) r by (simp add: dropWhile_append2)
qed

lemma while_digit_append:
  assumes "value_end rest"
  shows "takeWhile is_digit (xs @ rest) = takeWhile is_digit xs"
    and "dropWhile is_digit (xs @ rest) = dropWhile is_digit xs @ rest"
proof -
  have r: "takeWhile is_digit rest = []" "dropWhile is_digit rest = rest"
    using assms(1) by (cases rest; auto simp: value_end_def is_digit_def)+
  show "takeWhile is_digit (xs @ rest) = takeWhile is_digit xs"
    using r by (induction xs) auto
  show "dropWhile is_digit (xs @ rest) = dropWhile is_digit xs @ rest"
    using r by (induction xs) auto
qed


lemma value_end_hd:
  assumes "value_end rest"
  shows "rest = [] \<or> (\<exists>c cs. rest = c # cs \<and> (c = 44 \<or> c = 93 \<or> c = 125))"
  using assms by (cases rest) (auto simp: value_end_def)

lemma match_integer_append:
  assumes "value_end rest" "match_integer s = Some (ip, r)"
  shows "match_integer (s @ rest) = Some (ip, r @ rest)"
proof (cases s)
  case Nil
  with assms(2) show ?thesis by (simp add: match_integer_def)
next
  case (Cons d ds)
  with assms(2) show ?thesis
    by (auto simp: match_integer_def while_digit_append[OF assms(1)] split: if_splits)
qed

lemma match_frac_end:
  assumes "value_end rest"
  shows "match_frac rest = ([], rest)"
  using value_end_hd[OF assms]
  by (auto simp: match_frac_def split: list.splits)

lemma match_exp_end:
  assumes "value_end rest"
  shows "match_exp rest = ([], rest)"
  using value_end_hd[OF assms]
  by (auto simp: match_exp_def split: list.splits)

lemma match_frac_append:
  assumes "value_end rest" "match_frac s = (f, r)"
  shows "match_frac (s @ rest) = (f, r @ rest)"
proof -
  consider "s = []" | p where "s = [p]" | p q t where "s = p # q # t"
    by (cases s; cases "tl s") auto
  then show ?thesis
  proof cases
    case 1
    with assms(2) have "f = []" "r = []" by (simp_all add: match_frac_def)
    with 1 match_frac_end[OF assms(1)] show ?thesis by simp
  next
    case 2
    with assms(2) have fr: "f = []" "r = [p]" by (simp_all add: match_frac_def)
    from value_end_hd[OF assms(1)] show ?thesis
      using 2 fr by (auto simp: match_frac_def is_digit_def)
  next
    case 3
    with assms(2) show ?thesis
      by (auto simp: match_frac_def while_digit_append[OF assms(1)] split: if_splits)
  qed
qed

lemma match_exp_append:
  assumes "value_end rest" "match_exp s = (x, r)"
  shows "match_exp (s @ rest) = (x, r @ rest)"
proof (cases s)
  case Nil
  with assms(2) have "x = []" "r = []" by (simp_all add: match_exp_def)
  with Nil match_exp_end[OF assms(1)] show ?thesis by simp
next
  case (Cons e t)
  show ?thesis
  proof (cases "e = 101 \<or> e = 69")
    case False
    with Cons assms(2) show ?thesis by (auto simp: match_exp_def)
  next
    case True
    note e = this
    show ?thesis
    proof (cases t)
      case Nil
      with Cons e assms(2) have xr: "x = []" "r = [e]" by (auto simp: match_exp_def)
      from value_end_hd[OF assms(1)] show ?thesis
        using Cons Nil e xr by (auto simp: match_exp_def is_digit_def)
    next
      case (Cons c cs)
      note t = this
      show ?thesis
      proof (cases "c = 43 \<or> c = 45")
        case False
        with \<open>s = e # t\<close> t e assms(2) show ?thesis
          by (auto simp: match_exp_def while_digit_append[OF assms(1)] split: if_splits)
      next
        case True
        note sg = this
        show ?thesis
        proof (cases cs)
          case Nil
          with \<open>s = e # t\<close> t e sg assms(2) have xr: "x = []" "r = s"
            by (auto simp: match_exp_def)
          from value_end_hd[OF assms(1)] show ?thesis
            using \<open>s = e # t\<close> t Nil e sg xr by (auto simp: match_exp_def is_digit_def)
        next
          case (Cons d ds)
          with \<open>s = e # t\<close> t e sg assms(2) show ?thesis
            by (auto simp: match_exp_def while_digit_append[OF assms(1)] split: if_splits)
        qed
      qed
    qed
  qed
qed

lemma match_number_append:
  assumes "value_end rest" "match_number s = Some (ip, f, x, r)"
  shows "match_number (s @ rest) = Some (ip, f, x, r @ rest)"
proof -
  obtain sg s1 where sg: "match_sign s = (sg, s1)" by (cases "match_sign s")
  from assms(2) sg obtain ip' s2 where mi: "match_integer s1 = Some (ip', s2)"
    by (auto simp: match_number_def split: option.splits)
  obtain s3 where mf: "match_frac s2 = (f, s3)"
    using assms(2) sg mi by (cases "match_frac s2") (auto simp: match_number_def split: prod.splits)
  have mx: "match_exp s3 = (x, r)" and ip: "ip = sg @ ip'"
    using assms(2) sg mi mf by (cases "match_exp s3"; auto simp: match_number_def)+
  have "s \<noteq> []"
    using sg mi by (auto simp: match_sign_def match_integer_def)
  then have sg': "match_sign (s @ rest) = (sg, s1 @ rest)"
    using sg by (cases s) (auto simp: match_sign_def split: if_splits)
  show ?thesis
    by (simp add: match_number_def sg' match_integer_append[OF assms(1) mi]
        match_frac_append[OF assms(1) mf] match_exp_append[OF assms(1) mx] ip)
qed

lemma match_number_first:
  assumes "match_number s = Some (ip, f, x, r)"
  shows "\<exists>c cs. s = c # cs \<and> (is_digit c \<or> c = 45)"
proof -
  obtain sg s1 where sg: "match_sign s = (sg, s1)" by (cases "match_sign s")
  from assms sg obtain ip' s2 where mi: "match_integer s1 = Some (ip', s2)"
    by (auto simp: match_number_def split: option.splits)
  from sg mi show ?thesis
    by (cases s) (auto simp: match_sign_def match_integer_def is_digit_def split: if_splits list.splits)
qed

lemma scan_once_number:
  assumes "is_digit c \<or> c = 45" "match_number (c # cs) = Some (ip, f, x, r)"
  shows "\<exists>v. scan_once (c # cs) = Inr (v, r)"
  using assms
  by (subst scan_once.simps) (auto simp: is_digit_def)


lemma starts_value_append: "starts_value a \<Longrightarrow> starts_value (a @ b)"
  by (cases a) (auto simp: starts_value_def)

lemma skip_ws_starts_value: "starts_value s \<Longrightarrow> skip_ws s = s"
  by (cases s) (auto simp: starts_value_def skip_ws_def)

lemma skip_ws_space: "skip_ws (32 # s) = skip_ws s"
  by (simp add: skip_ws_def json_ws_def)

lemma float_text_scans:
  assumes "float_text t" "value_end rest"
  shows "\<exists>v. scan_once (t @ rest) = Inr (v, rest)" and "starts_value t"
proof -
  consider (nan) "t = [78, 97, 78]" | (inf) "t = [73, 110, 102, 105, 110, 105, 116, 121]"
    | (ninf) "t = [45, 73, 110, 102, 105, 110, 105, 116, 121]"
    | (num) ip f x where "match_number t = Some (ip, f, x, [])"
    using assms(1) by (auto simp: float_text_def split: if_splits option.splits)
  then have "(\<exists>v. scan_once (t @ rest) = Inr (v, rest)) \<and> starts_value t"
  proof cases
    case nan
    show ?thesis unfolding nan
      by (subst scan_once.simps)
         (simp add: match_number_def match_sign_def match_integer_def is_digit_def
            starts_value_def json_ws_def)
  next
    case inf
    show ?thesis unfolding inf
      by (subst scan_once.simps)
         (simp add: match_number_def match_sign_def match_integer_def is_digit_def
            starts_value_def json_ws_def)
  next
    case ninf
    show ?thesis unfolding ninf
      by (subst scan_once.simps)
         (simp add: match_number_def match_sign_def match_integer_def is_digit_def
            starts_value_def json_ws_def)
  next
    case num
    from match_number_first[OF num] obtain c cs where t: "t = c # cs"
      and c: "is_digit c \<or> c = 45" by blast
    from match_number_append[OF assms(2) num]
    have "match_number (c # (cs @ rest)) = Some (ip, f, x, rest)" by (simp add: t)
    from scan_once_number[OF c this] c t show ?thesis
      by (auto simp: starts_value_def json_ws_def is_digit_def)
  qed
  then show "\<exists>v. scan_once (t @ rest) = Inr (v, rest)" and "starts_value t" by blast+
qed

lemma match_number_digits:
  assumes "value_end rest"
  shows "match_number (digits n @ rest) = Some (digits n, [], [], rest)"
    and "match_number (45 # digits n @ rest) = Some (45 # digits n, [], [], rest)"
proof -
  have mi: "match_integer (digits n @ rest) = Some (digits n, rest)"
  proof (cases "n = 0")
    case True
    then show ?thesis by (simp add: digits_zero match_integer_def)
  next
    case False
    obtain d ds where d: "digits n = d # ds" using digits_nonempty[of n] by (cases "digits n") auto
    with digits_hd[of n] False have "d \<noteq> 48" by auto
    moreover from d digits_all[of n] have dd: "is_digit d" "\<forall>x \<in> set ds. is_digit x" by auto
    moreover have "takeWhile is_digit (ds @ rest) = ds" "dropWhile is_digit (ds @ rest) = rest"
      using while_digit_end[OF assms dd(2)] by blast+
    ultimately show ?thesis
      by (simp add: d match_integer_def)
  qed
  obtain d ds where d: "digits n = d # ds" using digits_nonempty[of n] by (cases "digits n") auto
  with digits_all[of n] have "d \<noteq> 45" by (auto simp: is_digit_def)
  then have sg: "match_sign (digits n @ rest) = ([], digits n @ rest)"
    by (simp add: d match_sign_def)
  show "match_number (digits n @ rest) = Some (digits n, [], [], rest)"
    by (simp add: match_number_def sg mi match_frac_end[OF assms] match_exp_end[OF assms])
  show "match_number (45 # digits n @ rest) = Some (45 # digits n, [], [], rest)"
    by (simp add: match_number_def match_sign_def mi match_frac_end[OF assms] match_exp_end[OF assms])
qed

lemma int_repr_scans:
  assumes "value_end rest"
  shows "\<exists>v. scan_once (int_repr i @ rest) = Inr (v, rest)" and "starts_value (int_repr i)"
proof -
  obtain d ds where d: "digits (nat \<bar>i\<bar>) = d # ds"
    using digits_nonempty[of "nat \<bar>i\<bar>"] by (cases "digits (nat \<bar>i\<bar>)") auto
  with digits_all[of "nat \<bar>i\<bar>"] have dd: "is_digit d" by auto
  show "\<exists>v. scan_once (int_repr i @ rest) = Inr (v, rest)"
  proof (cases "i < 0")
    case True
    then have r: "int_repr i = 45 # digits (nat \<bar>i\<bar>)" by (simp add: int_repr_def abs_if)
    from scan_once_number[of 45, OF _ match_number_digits(2)[OF assms]]
    show ?thesis by (simp add: r)
  next
    case False
    then have r: "int_repr i = d # ds" by (simp add: int_repr_def abs_if d[symmetric])
    from match_number_digits(1)[OF assms, of "nat \<bar>i\<bar>"]
    have "match_number (d # (ds @ rest)) = Some (d # ds, [], [], rest)" by (simp add: d)
    from scan_once_number[OF _ this] dd show ?thesis by (simp add: r)
  qed
  show "starts_value (int_repr i)"
    using dd d by (auto simp: int_repr_def abs_if starts_value_def json_ws_def is_digit_def)
qed


lemma value_end_simps:
  "value_end (93 # r)" "value_end (44 # r)" "value_end (125 # r)" "value_end []"
  by (simp_all add: value_end_def)

lemma skip_ws_delims:
  "skip_ws (93 # r) = 93 # r" "skip_ws (44 # r) = 44 # r" "skip_ws (125 # r) = 125 # r"
  "skip_ws (58 # r) = 58 # r" "skip_ws (34 # r) = 34 # r" "skip_ws [] = []"
  by (simp_all add: skip_ws_def json_ws_def)

lemma array_items:
  assumes "\<forall>x \<in> set xs. scans_back frepr x" "xs \<noteq> []"
  shows "\<exists>v. JSONArray acc (join [44, 32] (map (json_dumps frepr) xs) @ 93 # rest) = Inr (v, rest)"
  using assms
proof (induction xs arbitrary: acc)
  case Nil
  then show ?case by simp
next
  case (Cons x xs)
  from Cons.prems have gx: "scans_back frepr x" by simp
  show ?case
  proof (cases xs)
    case Nil
    from gx obtain v' where
      "scan_once (json_dumps frepr x @ 93 # rest) = Inr (v', 93 # rest)"
      unfolding scans_back_def using value_end_simps(1) by blast
    then show ?thesis
      unfolding Nil by (subst JSONArray.simps) (simp add: skip_ws_delims)
  next
    case (Cons y ys)
    let ?tail = "join [44, 32] (map (json_dumps frepr) (y # ys)) @ 93 # rest"
    from Cons.prems Cons have "scans_back frepr y" by simp
    then have "starts_value (json_dumps frepr y)" by (simp add: scans_back_def)
    then have "starts_value ?tail"
      by (cases ys) (simp_all add: starts_value_append)
    then have sk: "skip_ws (32 # ?tail) = ?tail"
      by (simp add: skip_ws_space skip_ws_starts_value)
    from gx obtain v' where
      sx: "scan_once (json_dumps frepr x @ 44 # 32 # ?tail) = Inr (v', 44 # 32 # ?tail)"
      unfolding scans_back_def using value_end_simps(2) by blast
    from Cons.IH[of "acc @ [v']"] Cons.prems Cons
    obtain v where "JSONArray (acc @ [v']) ?tail = Inr (v, rest)" by auto
    with sx sk have "JSONArray acc (json_dumps frepr x @ 44 # 32 # ?tail) = Inr (v, rest)"
      by (subst JSONArray.simps) (simp add: skip_ws_delims)
    then show ?thesis
      unfolding Cons by simp
  qed
qed

lemma object_items:
  assumes "\<forall>kv \<in> set kvs. scans_back frepr (snd kv)" "kvs \<noteq> []"
  shows "\<exists>v. JSONObject acc
           (join [44, 32]
              (map (\<lambda>kv. encode_basestring (fst kv) @ [58, 32] @ json_dumps frepr (snd kv)) kvs)
            @ 125 # rest) = Inr (v, rest)"
  using assms
proof (induction kvs arbitrary: acc)
  case Nil
  then show ?case by simp
next
  case (Cons kv kvs)
  let ?m = "\<lambda>kv. encode_basestring (fst kv) @ [58, 32] @ json_dumps frepr (snd kv)"
  from Cons.prems have g: "scans_back frepr (snd kv)" by simp
  then have sv: "starts_value (json_dumps frepr (snd kv))" by (simp add: scans_back_def)
  have member: "JSONObject acc
        (encode_basestring (fst kv) @ 58 # 32 # json_dumps frepr (snd kv) @ follow) =
      (case scan_once (json_dumps frepr (snd kv) @ follow) of
         Inl e \<Rightarrow> Inl e
       | Inr (v, r3) \<Rightarrow>
           (case skip_ws r3 of
              [] \<Rightarrow> Inl JSONDecodeError
            | c' # r4 \<Rightarrow>
                if c' = 125 then Inr (JObj (dict (acc @ [(fst kv, v)])), r4)
                else if c' = 44 then JSONObject (acc @ [(fst kv, v)]) (skip_ws r4)
                else Inl JSONDecodeError))" for follow
  proof -
    have sk: "skip_ws (32 # json_dumps frepr (snd kv) @ follow) = json_dumps frepr (snd kv) @ follow"
      using sv by (simp add: skip_ws_space skip_ws_starts_value starts_value_append)
    have st: "scanstring (concat (map escape_char (fst kv)) @ 34 # 58 # 32 # json_dumps frepr (snd kv) @ follow)
                = Inr (fst kv, 58 # 32 # json_dumps frepr (snd kv) @ follow)"
      by (rule scanstring_encoded)
    show ?thesis
      by (subst JSONObject.simps) (simp add: encode_basestring_def st skip_ws_delims sk)
  qed
  show ?case
  proof (cases kvs)
    case Nil
    from g obtain v' where
      "scan_once (json_dumps frepr (snd kv) @ 125 # rest) = Inr (v', 125 # rest)"
      unfolding scans_back_def using value_end_simps(3) by blast
    then have "\<exists>v. JSONObject acc (?m kv @ 125 # rest) = Inr (v, rest)"
      by (simp add: member skip_ws_delims)
    then show ?thesis unfolding Nil by simp
  next
    case (Cons kv2 kvs2)
    let ?tail = "join [44, 32] (map ?m (kv2 # kvs2)) @ 125 # rest"
    have "\<exists>t. ?tail = 34 # t"
      by (cases kvs2) (simp_all add: encode_basestring_def)
    then obtain t where "?tail = 34 # t" by blast
    then have sk: "skip_ws (32 # ?tail) = ?tail"
      by (simp add: skip_ws_space skip_ws_delims)
    from g obtain v' where
      sx: "scan_once (json_dumps frepr (snd kv) @ 44 # 32 # ?tail) = Inr (v', 44 # 32 # ?tail)"
      unfolding scans_back_def using value_end_simps(2) by blast
    from Cons.IH[of "acc @ [(fst kv, v')]"] Cons.prems Cons
    obtain v where "JSONObject (acc @ [(fst kv, v')]) ?tail = Inr (v, rest)" by auto
    with sx sk have "JSONObject acc (?m kv @ 44 # 32 # ?tail) = Inr (v, rest)"
      by (simp add: member skip_ws_delims)
    then show ?thesis
      unfolding Cons by simp
  qed
qed

lemma scans_back_all:
  assumes fr: "\<forall>l. float_text (frepr l)"
  shows "scans_back frepr v"
proof (induction v)
  case JNull
  show ?case
    unfolding scans_back_def
    by (auto simp: ascii_Cons ascii_Nil starts_value_def json_ws_def scan_once.simps)
next
  case (JBool b)
  show ?case
    unfolding scans_back_def
    by (cases b) (auto simp: ascii_Cons ascii_Nil starts_value_def json_ws_def scan_once.simps)
next
  case (JInt i)
  show ?case
    unfolding scans_back_def
    using int_repr_scans(1)[of _ i] int_repr_scans(2)[OF value_end_simps(4), of i] by simp
next
  case (JFloat l)
  from fr have "float_text (frepr l)" by simp
  from float_text_scans(1)[OF this] float_text_scans(2)[OF this value_end_simps(4)] show ?case
    unfolding scans_back_def by simp
next
  case (JStr s)
  have "scan_once (encode_basestring s @ rest) = Inr (JStr s, rest)" for rest
    by (subst scan_once.simps) (simp add: encode_basestring_def scanstring_encoded)
  then show ?case
    unfolding scans_back_def
    by (simp add: starts_value_def json_ws_def encode_basestring_def)
next
  case (JArr xs)
  then have all: "\<forall>x \<in> set xs. scans_back frepr x" by simp
  have "\<exists>v'. scan_once (json_dumps frepr (JArr xs) @ rest) = Inr (v', rest)" for rest
  proof (cases xs)
    case Nil
    show ?thesis
      unfolding Nil by (subst scan_once.simps) (simp add: skip_ws_delims)
  next
    case (Cons y ys)
    let ?body = "join [44, 32] (map (json_dumps frepr) xs) @ 93 # rest"
    from all Cons have sv: "starts_value (json_dumps frepr y)" by (simp add: scans_back_def)
    then have sb: "starts_value ?body"
      unfolding Cons by (cases ys) (simp_all add: starts_value_append)
    then obtain d ds where b: "?body = d # ds" and d: "d \<noteq> 93"
      by (cases ?body) (auto simp: starts_value_def)
    from skip_ws_starts_value[OF sb] b have sk: "skip_ws (d # ds) = d # ds" by simp
    from array_items[OF all, of "[]" rest] Cons b
    obtain v where "JSONArray [] (d # ds) = Inr (v, rest)" by auto
    then have "scan_once (91 # d # ds) = Inr (v, rest)"
      using d by (subst scan_once.simps) (simp add: sk)
    then have "scan_once (91 # ?body) = Inr (v, rest)" by (simp only: b)
    then show ?thesis by auto
  qed
  then show ?case
    unfolding scans_back_def by (simp add: starts_value_def json_ws_def)
next
  case (JObj kvs)
  then have all: "\<forall>kv \<in> set kvs. scans_back frepr (snd kv)"
    by (auto simp: snds.simps)
  have "\<exists>v'. scan_once (json_dumps frepr (JObj kvs) @ rest) = Inr (v', rest)" for rest
  proof (cases kvs)
    case Nil
    show ?thesis
      unfolding Nil by (subst scan_once.simps) (simp add: skip_ws_delims)
  next
    case (Cons kv kvs2)
    let ?body = "join [44, 32]
        (map (\<lambda>kv. encode_basestring (fst kv) @ [58, 32] @ json_dumps frepr (snd kv)) kvs)
        @ 125 # rest"
    have "\<exists>t. ?body = 34 # t"
      unfolding Cons by (cases kvs2) (simp_all add: encode_basestring_def)
    then obtain t where b: "?body = 34 # t" by blast
    from object_items[OF all, of "[]" rest] Cons b
    obtain v where "JSONObject [] (34 # t) = Inr (v, rest)" by auto
    then have "scan_once (123 # 34 # t) = Inr (v, rest)"
      by (subst scan_once.simps) (simp add: skip_ws_delims)
    then have "scan_once (123 # ?body) = Inr (v, rest)" by (simp only: b)
    then show ?thesis by auto
  qed
  then show ?case
    unfolding scans_back_def by (simp add: starts_value_def json_ws_def)
qed

lemma json_loads_dumps:
  assumes "\<forall>l. float_text (frepr l)"
  shows "\<exists>d. json_loads (json_dumps frepr v) = Inr d"
proof -
  from scans_back_all[OF assms, of v]
  have sv: "starts_value (json_dumps frepr v)"
    and "\<exists>v'. scan_once (json_dumps frepr v @ []) = Inr (v', [])"
    unfolding scans_back_def using value_end_simps(4) by blast+
  then obtain v' where sc: "scan_once (json_dumps frepr v) = Inr (v', [])" by auto
  from sv have nb: "\<not> startswith [65279] (json_dumps frepr v)"
    by (cases "json_dumps frepr v") (auto simp: starts_value_def)
  show ?thesis
    by (simp add: json_loads_def nb skip_ws_starts_value[OF sv] sc skip_ws_delims)
qed

lemma parse_text_shape:
  assumes "parse_text t = Inr p"
  shows "\<exists>tags members. p = JObj ((ascii ''tags'', JStr tags) # members) \<and> members \<noteq> []"
  using assms
  by (auto simp: parse_text_def Let_def split: sum.splits if_splits)

lemma dumps_not_fallback:
  assumes "parse_text t = Inr p"
  shows "json_dumps frepr p \<noteq> fallback_intent"
proof -
  from parse_text_shape[OF assms] obtain tags m ms
    where p: "p = JObj ((ascii ''tags'', JStr tags) # m # ms)"
    by (metis list.exhaust)
  have "json_dumps frepr p ! 2 = 116"
    by (simp add: p encode_basestring_def ascii_Cons ascii_Nil escape_char_def)
  moreover have "fallback_intent ! 2 = 105"
    by (simp add: fallback_intent_def ascii_Cons ascii_Nil)
  ultimately show ?thesis by auto
qed

lemma try_decode_loaded:
  assumes "fst (try_decode rt s k i (Inr d)) = Inr r"
  shows "r = i"
  using assms
  by (auto simp: try_decode_def split: sum.splits bool.splits if_splits)

lemma detect_uncached_result:
  assumes "\<forall>l. float_text (float_repr rt l)"
    and "fst (detect_uncached rt s c client k text) = Inr r"
  shows "r \<noteq> fallback_intent"
proof -
  from assms(2) obtain s4 resp p where p: "parse_text resp = Inr p"
    and t: "fst (try_decode rt s4 k (json_dumps (float_repr rt) p)
                  (json_loads (json_dumps (float_repr rt) p))) = Inr r"
    by (auto simp: detect_uncached_def Let_def split: sum.splits)
  from json_loads_dumps[OF assms(1), of p] obtain d
    where "json_loads (json_dumps (float_repr rt) p) = Inr d" by blast
  with t try_decode_loaded have "r = json_dumps (float_repr rt) p" by metis
  with dumps_not_fallback[OF p] show ?thesis by simp
qed

lemma clean_cache_subset:
  "set (intent_cache (clean_cache rt s)) \<subseteq> set (intent_cache s)"
  by (auto simp: clean_cache_def Let_def tick_def del_keys_filter)

lemma after_lookup_cache: "intent_cache (after_lookup s k) = intent_cache s"
  by (simp add: after_lookup_def tick_fields split: option.splits)


lemma example_float_repr: "\<forall>l. float_text (float_repr (example_runtime t) l)"
  by (simp add: example_runtime_def float_text_def)

text \<open>
  C9. Let the runtime print floats as Python does (\<open>float_text\<close>). Then
  \<^verbatim>\<open>json.loads\<close> accepts what \<^verbatim>\<open>json.dumps\<close> writes for every value; in particular,
  for the dictionary \<open>parse_text\<close> returns, the final decoding succeeds, so the handler
  of line 175 is not entered, and the serialised dictionary is not the fallback literal.
  A call that misses the cache never returns the fallback literal. Any call returns it
  only if it was already in the cache, and no call puts it there: in a provider whose
  cache does not hold the literal, as after \<^verbatim>\<open>__init__\<close>, \<open>detect_intent\<close> never
  returns it and the cache still does not hold it afterwards.
\<close>

theorem fallback_is_unreachable:
  assumes "\<forall>l. float_text (float_repr rt l)"
  shows "(\<forall>v. \<exists>d. json_loads (json_dumps (float_repr rt) v) = Inr d)
       \<and> (\<forall>response p. parse_text response = Inr p \<longrightarrow>
             (\<exists>d. json_loads (json_dumps (float_repr rt) p) = Inr d)
             \<and> json_dumps (float_repr rt) p \<noteq> fallback_intent)
       \<and> (\<forall>client k. llm self = Some client \<and> cache_key_of text = Inr k
               \<and> cache_miss rt self k \<longrightarrow>
             fst (detect_intent rt self c dialogue_history text) \<noteq> Inr fallback_intent)
       \<and> ((\<forall>kv \<in> set (intent_cache self). intent (snd kv) \<noteq> fallback_intent) \<longrightarrow>
             fst (detect_intent rt self c dialogue_history text) \<noteq> Inr fallback_intent
           \<and> (\<forall>kv \<in> set (intent_cache (snd (detect_intent rt self c dialogue_history text))).
                 intent (snd kv) \<noteq> fallback_intent))"
proof -
  have 1: "\<exists>d. json_loads (json_dumps (float_repr rt) v) = Inr d" for v
    by (rule json_loads_dumps[OF assms])
  have 2: "json_dumps (float_repr rt) p \<noteq> fallback_intent" if "parse_text response = Inr p"
    for response p
    using that by (rule dumps_not_fallback)
  have 3: "fst (detect_intent rt self c dialogue_history text) \<noteq> Inr fallback_intent"
    if "llm self = Some client" "cache_key_of text = Inr k" "cache_miss rt self k" for client k
    using detect_intent_miss[OF that, of c dialogue_history]
      detect_uncached_result[OF assms, of "after_lookup self k" c client k "text" fallback_intent]
    by auto
  have 4: "fst (detect_intent rt self c dialogue_history text) \<noteq> Inr fallback_intent
           \<and> (\<forall>kv \<in> set (intent_cache (snd (detect_intent rt self c dialogue_history text))).
                 intent (snd kv) \<noteq> fallback_intent)"
    if inv: "\<forall>kv \<in> set (intent_cache self). intent (snd kv) \<noteq> fallback_intent"
  proof (cases "llm self")
    case None
    with inv show ?thesis by (simp add: detect_intent_def)
  next
    case (Some client)
    show ?thesis
    proof (cases "cache_key_of text")
      case (Inl e)
      with Some inv show ?thesis by (simp add: detect_intent_def Let_def tick_fields)
    next
      case (Inr k)
      show ?thesis
      proof (cases "cache_miss rt self k")
        case False
        then obtain entry where e: "map_of (intent_cache self) k = Some entry"
          and f: "time_time rt (Suc (clock_reads self)) - timestamp entry \<le> cache_expiry"
          by (auto simp: cache_miss_def split: option.splits)
        from e have "(k, entry) \<in> set (intent_cache self)" by (rule map_of_SomeD)
        with inv have "intent entry \<noteq> fallback_intent" by force
        with Some Inr e f inv show ?thesis
          by (simp add: detect_intent_def Let_def tick_fields now_def)
      next
        case True
        let ?s = "after_lookup self k"
        have d: "detect_intent rt self c dialogue_history text
                   = detect_uncached rt ?s c client k text"
          using Some Inr True by (rule detect_intent_miss)
        from 3[OF Some Inr True]
        have r: "fst (detect_intent rt self c dialogue_history text) \<noteq> Inr fallback_intent" .
        have cl: "\<forall>kv \<in> set (intent_cache (clean_cache rt ?s)). intent (snd kv) \<noteq> fallback_intent"
          using inv clean_cache_subset[of rt ?s] by (auto simp: after_lookup_cache)
        consider
          (same) "intent_cache (snd (detect_uncached rt ?s c client k text))
                    = intent_cache (clean_cache rt ?s)"
        | (stored) i where "fst (detect_uncached rt ?s c client k text) = Inr i"
            "intent_cache (snd (detect_uncached rt ?s c client k text))
              = AList.update k \<lparr>intent = i, timestamp = time_time rt (clock_reads ?s + 5)\<rparr>
                  (intent_cache (clean_cache rt ?s))"
          using detect_uncached_cache[of rt "?s" c client k "text"] by blast
        then have "\<forall>kv \<in> set (intent_cache (snd (detect_uncached rt ?s c client k text))).
                     intent (snd kv) \<noteq> fallback_intent"
        proof cases
          case same
          with cl show ?thesis by simp
        next
          case stored
          from stored(1) r d have i: "i \<noteq> fallback_intent" by auto
          show ?thesis
          proof
            fix kv
            assume "kv \<in> set (intent_cache (snd (detect_uncached rt ?s c client k text)))"
            with stored(2) set_update_subset
            have "kv = (k, \<lparr>intent = i, timestamp = time_time rt (clock_reads ?s + 5)\<rparr>)
                  \<or> kv \<in> set (intent_cache (clean_cache rt ?s))"
              by fastforce
            with cl i show "intent (snd kv) \<noteq> fallback_intent" by auto
          qed
        qed
        with r d show ?thesis by simp
      qed
    qed
  qed
  from 1 2 3 4 show ?thesis by blast
qed

theorem fallback_is_unreachable_witness:
  \<open>(\<exists>d. json_loads (json_dumps (float_repr (example_runtime 0))
           (JObj [(ascii ''tags'', JStr []), (ascii ''function_call'', JFloat (ascii ''1.5'')),
                  (ascii ''content'', JStr [])])) = Inr d)
   \<and> fst (detect_intent (example_runtime 0)
          (example_provider (ascii ''<tool_call>[{"a": 1.5}]</tool_call>'') []) example_conn []
          (ascii ''hi''))
       \<noteq> Inr fallback_intent\<close>
proof -
  note t = fallback_is_unreachable [OF example_float_repr, of 0
      \<open>example_provider (ascii ''<tool_call>[{"a": 1.5}]</tool_call>'') []\<close>
      "ascii ''hi''" example_conn "[]"]
  from t have 1: "\<exists>d. json_loads (json_dumps (float_repr (example_runtime 0))
           (JObj [(ascii ''tags'', JStr []), (ascii ''function_call'', JFloat (ascii ''1.5'')),
                  (ascii ''content'', JStr [])])) = Inr d"
    by blast
  from t example_llm cache_key_of_hi example_miss
  have 2: \<open>fst (detect_intent (example_runtime 0)
          (example_provider (ascii ''<tool_call>[{"a": 1.5}]</tool_call>'') []) example_conn []
          (ascii ''hi''))
       \<noteq> Inr fallback_intent\<close>
    by blast
  from 1 2 show ?thesis by blast
qed

end
